theory Spec2Isabelle
  imports Main "HOL-Library.Sublist" "HOL-Library.Multiset"
begin

text \<open>
  devlog is a command-line tool that reads the commits of a git repository and prints a
  journal, a standup report, a weekly recap, release notes or the recap of a range,
  written by an external AI command or, without it, by a local summarizer. This theory
  embeds the parts of it that its specification makes statements about: the local
  summarizer, the cleaning of the AI command's output, the calls of the AI command, the
  grouping of commits by date, the repository name, the configuration file and the
  \<open>recap\<close> command. The definitions come first, each section following one module; the
  properties follow.
\<close>

section \<open>JavaScript strings\<close>

text \<open>
  A JavaScript string is modelled as a \<^typ>\<open>string\<close>: the list of its code units, each
  below 256. The string methods the program calls are written out as recursive
  functions on that list.
\<close>

definition toLowerCase_char :: "char \<Rightarrow> char" where
  "toLowerCase_char c =
     (let n = of_char c :: nat
      in if (65 \<le> n \<and> n \<le> 90) \<or> (192 \<le> n \<and> n \<le> 222 \<and> n \<noteq> 215)
         then char_of (n + 32) else c)"

definition toLowerCase :: "string \<Rightarrow> string" where
  "toLowerCase s = map toLowerCase_char s"

fun startsWith :: "string \<Rightarrow> string \<Rightarrow> bool" where
  "startsWith s [] = True"
| "startsWith [] (p # ps) = False"
| "startsWith (c # cs) (p # ps) = (c = p \<and> startsWith cs ps)"

fun includes_str :: "string \<Rightarrow> string \<Rightarrow> bool" where
  "includes_str [] p = startsWith [] p"
| "includes_str (c # cs) p = (startsWith (c # cs) p \<or> includes_str cs p)"

text \<open>\<open>indexOf\<close> returns the first position of the pattern, or \<open>-1\<close>.\<close>

fun indexOf :: "string \<Rightarrow> string \<Rightarrow> int" where
  "indexOf [] p = (if startsWith [] p then 0 else - 1)"
| "indexOf (c # cs) p =
     (if startsWith (c # cs) p then 0
      else (let i = indexOf cs p in if i = - 1 then - 1 else i + 1))"

definition substring :: "string \<Rightarrow> int \<Rightarrow> int \<Rightarrow> string" where
  "substring s a b =
     (let n = int (length s);
          a' = max 0 (min a n);
          b' = max 0 (min b n)
      in take (nat (max a' b') - nat (min a' b')) (drop (nat (min a' b')) s))"

text \<open>
  The characters \<open>trim\<close> removes: tab, line feed, vertical tab, form feed, carriage
  return, space and no-break space.
\<close>

definition isWhiteSpace :: "char \<Rightarrow> bool" where
  "isWhiteSpace c = (of_char c \<in> {9, 10, 11, 12, 13, 32, 160 :: nat})"

definition trim :: "string \<Rightarrow> string" where
  "trim s = rev (dropWhile isWhiteSpace (rev (dropWhile isWhiteSpace s)))"

fun join :: "string \<Rightarrow> string list \<Rightarrow> string" where
  "join sep [] = []"
| "join sep [x] = x"
| "join sep (x # y # ys) = x @ sep @ join sep (y # ys)"

section \<open>Commits\<close>

record CommitInfo =
  hash :: string
  hashShort :: string
  date :: string
  message :: string
  body :: string
  author :: string
  email :: string
  filesChanged :: "string list"
  diff :: string

section \<open>The local summarizer\<close>

record categories =
  features :: "string list"
  "fixes" :: "string list"
  other :: "string list"

text \<open>The body of the loop of \<open>localSummarize\<close>: one commit is pushed to one bucket.\<close>

definition categorize_commit :: "categories \<Rightarrow> CommitInfo \<Rightarrow> categories" where
  "categorize_commit cats commit =
     (let msg = toLowerCase (message commit)
      in if startsWith msg ''feat'' \<or> includes_str msg ''add'' \<or> includes_str msg ''new''
         then cats\<lparr>features := features cats @ [message commit]\<rparr>
         else if startsWith msg ''fix'' \<or> includes_str msg ''bug'' \<or> includes_str msg ''patch''
         then cats\<lparr>fixes := fixes cats @ [message commit]\<rparr>
         else cats\<lparr>other := other cats @ [message commit]\<rparr>)"

definition categorize :: "CommitInfo list \<Rightarrow> categories" where
  "categorize commits =
     foldl categorize_commit \<lparr>features = [], fixes = [], other = []\<rparr> commits"

definition bullets :: "string list \<Rightarrow> string" where
  "bullets ms = join ''\<newline>'' (map (\<lambda>m. ''  - '' @ m) ms)"

definition localSummarize :: "CommitInfo list \<Rightarrow> string" where
  "localSummarize commits =
     (if length commits = 0 then ''No commits found in this period.''
      else
        let cats = categorize commits;
            summary = '''';
            summary = (if length (features cats) > 0
                       then summary @ ''Features:\<newline>'' @ bullets (features cats) @ ''\<newline>\<newline>''
                       else summary);
            summary = (if length (fixes cats) > 0
                       then summary @ ''Fixes:\<newline>'' @ bullets (fixes cats) @ ''\<newline>\<newline>''
                       else summary);
            summary = (if length (other cats) > 0
                       then summary @ ''Other:\<newline>'' @ bullets (other cats) @ ''\<newline>\<newline>''
                       else summary)
        in trim summary)"

subsection \<open>The report as the specification words it\<close>

text \<open>
  The specification's reading of the classifier: a message is a feature when its
  lower-cased text has the prefix \<open>feat\<close> or contains \<open>add\<close> or \<open>new\<close>; otherwise a
  fix when it has the prefix \<open>fix\<close> or contains \<open>bug\<close> or \<open>patch\<close>; otherwise other.
  Prefix and containment are the library's \<^const>\<open>prefix\<close> and \<^const>\<open>sublist\<close>.
\<close>

datatype bucket = Features | Fixes | Other

definition spec_is_feature :: "string \<Rightarrow> bool" where
  "spec_is_feature m =
     (let l = toLowerCase m in prefix ''feat'' l \<or> sublist ''add'' l \<or> sublist ''new'' l)"

definition spec_is_fix :: "string \<Rightarrow> bool" where
  "spec_is_fix m =
     (let l = toLowerCase m in prefix ''fix'' l \<or> sublist ''bug'' l \<or> sublist ''patch'' l)"

definition spec_bucket :: "string \<Rightarrow> bucket" where
  "spec_bucket m =
     (if spec_is_feature m then Features else if spec_is_fix m then Fixes else Other)"

definition in_bucket :: "bucket \<Rightarrow> CommitInfo list \<Rightarrow> string list" where
  "in_bucket b cs = map message (filter (\<lambda>c. spec_bucket (message c) = b) cs)"

text \<open>
  The specification's reading of the report: one section per nonempty bucket, a header
  line followed by one bullet line per message, the sections separated by a blank line,
  the whole trimmed.
\<close>

definition spec_section :: "string \<Rightarrow> string list \<Rightarrow> string" where
  "spec_section header ms =
     header @ ''\<newline>'' @ join ''\<newline>'' (map (\<lambda>m. ''  - '' @ m) ms)"

definition spec_report :: "categories \<Rightarrow> string" where
  "spec_report cats =
     trim (join ''\<newline>\<newline>''
       (map (\<lambda>(header, ms). spec_section header ms)
         (filter (\<lambda>(header, ms). ms \<noteq> [])
           [(''Features:'', features cats), (''Fixes:'', fixes cats), (''Other:'', other cats)])))"

text \<open>A commit with a given subject line, for concrete runs.\<close>

definition commit_of_message :: "string \<Rightarrow> CommitInfo" where
  "commit_of_message m =
     \<lparr>hash = ''0123456789abcdef'', hashShort = ''0123456'', date = ''2024-01-15T10:00:00Z'',
      message = m, body = '''', author = ''Dev'', email = ''dev@example.org'',
      filesChanged = [], diff = ''''\<rparr>"

definition two_commits :: "CommitInfo list" where
  "two_commits = [commit_of_message ''Add bug tracker'', commit_of_message ''fix typo '']"

section \<open>Sanitizing the output of the AI command\<close>

text \<open>
  The pattern \<open>/\x1B\[[0-9;]*[a-zA-Z]/\<close>: the escape character, an opening bracket, the
  longest run of digits and semicolons, one ASCII letter. \<open>matchAnsi s\<close> is the length
  of the match that starts at the first character of \<open>s\<close>, if there is one. The run is
  greedy, and giving characters back never helps: a digit or semicolon is not a letter.
\<close>

definition isParam :: "char \<Rightarrow> bool" where
  "isParam c = ((48 \<le> (of_char c :: nat) \<and> (of_char c :: nat) \<le> 57) \<or> c = CHR '';'')"

definition isLetter :: "char \<Rightarrow> bool" where
  "isLetter c =
     ((97 \<le> (of_char c :: nat) \<and> (of_char c :: nat) \<le> 122)
      \<or> (65 \<le> (of_char c :: nat) \<and> (of_char c :: nat) \<le> 90))"

fun matchAnsi :: "string \<Rightarrow> nat option" where
  "matchAnsi (e # b # rest) =
     (if e = CHR 0x1B \<and> b = CHR ''[''
      then (case dropWhile isParam rest of
              [] \<Rightarrow> None
            | l # _ \<Rightarrow> if isLetter l then Some (2 + length (takeWhile isParam rest) + 1) else None)
      else None)"
| "matchAnsi _ = None"

text \<open>
  \<open>replace\<close> with the global flag and an empty replacement: one pass from the left;
  a match is skipped and the scan goes on after it, any other character is kept.
\<close>

fun removeAnsi :: "string \<Rightarrow> string" where
  "removeAnsi [] = []"
| "removeAnsi (c # cs) =
     (case matchAnsi (c # cs) of
        Some n \<Rightarrow> removeAnsi (drop (n - 1) cs)
      | None \<Rightarrow> c # removeAnsi cs)"

definition removeCR :: "string \<Rightarrow> string" where
  "removeCR s = filter (\<lambda>c. c \<noteq> CHR 0x0D) s"

definition markers :: "string list" where
  "markers = [''\<newline>Total usage est:'', ''\<newline>API time spent:'']"

definition earliest_marker :: "string \<Rightarrow> int" where
  "earliest_marker cleaned =
     foldl (\<lambda>earliest marker.
              let idx = indexOf cleaned marker
              in if idx \<noteq> - 1 \<and> idx < earliest then idx else earliest)
       (int (length cleaned)) markers"

definition cleanCopilotOutput :: "string \<Rightarrow> string" where
  "cleanCopilotOutput output =
     (let cleaned = removeCR (removeAnsi output);
          earliest = earliest_marker cleaned;
          cleaned = (if earliest < int (length cleaned) then substring cleaned 0 earliest
                     else cleaned)
      in trim cleaned)"






section \<open>The external AI command\<close>

text \<open>
  \<open>execFile\<close> starts a child process and waits for it. What the child does is outside
  the program: it is a parameter \<open>run\<close>, from the invocation (file, arguments, options)
  to the outcome, either the error \<open>execFile\<close> rejects with or the text the child wrote
  to its standard output. The invocations made so far are the state: each call appends
  one, so that a function that starts no child process leaves the state as it was.
\<close>

datatype exec_error = ENOENT | ETIMEDOUT | ExitCode nat | MaxBufferExceeded

record exec_options =
  timeout :: nat
  maxBuffer :: "nat option"

type_synonym invocation = "string \<times> string list \<times> exec_options"

type_synonym child_process = "invocation \<Rightarrow> exec_error + string"

definition execFileAsync ::
  "child_process \<Rightarrow> string \<Rightarrow> string list \<Rightarrow> exec_options \<Rightarrow> invocation list
   \<Rightarrow> (exec_error + string) \<times> invocation list" where
  "execFileAsync run file args opts spawned =
     (run (file, args, opts), spawned @ [(file, args, opts)])"

text \<open>
  A function of the program that can throw (an \<open>async\<close> function: reject) returns
  \<open>Inl\<close> of the error, or \<open>Inr\<close> of its result.
\<close>

datatype js_error = ExecError exec_error | RangeError | TypeError | Error string

definition isCopilotCliAvailable ::
  "child_process \<Rightarrow> invocation list \<Rightarrow> (js_error + bool) \<times> invocation list" where
  "isCopilotCliAvailable run spawned =
     (case execFileAsync run ''gh'' [''copilot'', ''--'', ''--version'']
             \<lparr>timeout = 15000, maxBuffer = None\<rparr> spawned of
        (Inr stdout, spawned') \<Rightarrow> (Inr (includes_str stdout ''Copilot CLI''), spawned')
      | (Inl err, spawned') \<Rightarrow> (Inr False, spawned'))"

definition askCopilot ::
  "child_process \<Rightarrow> string \<Rightarrow> invocation list \<Rightarrow> (js_error + string) \<times> invocation list" where
  "askCopilot run prompt spawned =
     (case execFileAsync run ''gh'' [''copilot'', ''--'', ''-p'', prompt]
             \<lparr>timeout = 60000, maxBuffer = Some (1024 * 1024)\<rparr> spawned of
        (Inr stdout, spawned') \<Rightarrow> (Inr (cleanCopilotOutput stdout), spawned')
      | (Inl err, spawned') \<Rightarrow> (Inr '''', spawned'))"

definition formatCommitsForPrompt :: "CommitInfo list \<Rightarrow> string" where
  "formatCommitsForPrompt commits =
     join ''\<newline>''
       (map (\<lambda>c.
          let entry = ''- ['' @ hashShort c @ ''] '' @ message c;
              entry = (if length (filesChanged c) > 0
                       then entry @ '' (files: '' @ join '', '' (take 5 (filesChanged c))
                              @ (if length (filesChanged c) > 5 then ''...'' else '''') @ '')''
                       else entry);
              entry = (if diff c \<noteq> '''' then entry @ '' | '' @ diff c else entry)
          in entry) commits)"

abbreviation dq :: string where
  "dq \<equiv> [CHR 0x22]"






definition generateRangeSummary ::
  "child_process \<Rightarrow> CommitInfo list \<Rightarrow> string \<Rightarrow> string \<Rightarrow> string \<Rightarrow> invocation list
   \<Rightarrow> (js_error + string) \<times> invocation list" where
  "generateRangeSummary run commits repoName from to spawned =
     (if length commits = 0 then (Inr '''', spawned)
      else
        let commitList = formatCommitsForPrompt commits;
            prompt = ''Summarize the git activity in '' @ dq @ repoName @ dq
              @ '' from '' @ from @ '' to '' @ to
              @ ''. Provide a narrative overview of what was accomplished, key changes, and their impact:\<newline>\<newline>''
              @ commitList
        in askCopilot run prompt spawned)"

text \<open>The two invocations the program makes, and two child processes for concrete runs.\<close>

definition probe_invocation :: invocation where
  "probe_invocation = (''gh'', [''copilot'', ''--'', ''--version''], \<lparr>timeout = 15000, maxBuffer = None\<rparr>)"

definition prompt_invocation :: "string \<Rightarrow> invocation" where
  "prompt_invocation prompt =
     (''gh'', [''copilot'', ''--'', ''-p'', prompt], \<lparr>timeout = 60000, maxBuffer = Some (1024 * 1024)\<rparr>)"

definition absent_cli :: child_process where
  "absent_cli call = Inl ENOENT"


section \<open>Grouping commits by date\<close>

text \<open>
  The date library and the built-in \<open>Date\<close> are outside the program; they are the
  parameter \<open>cal\<close>. \<open>parseISO\<close> gives the instant a date string denotes, in
  milliseconds, or \<open>None\<close> for an invalid date; \<open>format_day\<close> and \<open>format_label\<close> are
  \<open>format\<close> with the patterns \<open>yyyy-MM-dd\<close> and \<open>EEEE, MMMM d, yyyy\<close> (\<open>format\<close> throws
  a \<open>RangeError\<close> on an invalid date); \<open>Date_getTime\<close> is \<open>new Date(s).getTime()\<close>, with
  \<open>None\<close> for \<open>NaN\<close>.

  The \<open>Map\<close> of the first loop is an association list in insertion order, which is
  the order a \<open>Map\<close> is iterated in. \<open>map_get_push\<close> is \<open>groups.get(k).push(commit)\<close>:
  the array stored under the key grows in place.

  \<open>Array.prototype.sort\<close> is stable, and a comparator result of \<open>NaN\<close> counts as 0.
  For a comparator that orders its arguments consistently the result is then
  determined, and \<open>array_sort\<close> computes it by insertion. In the comparator a group has
  a first commit: each group is built with one (lemma \<open>group_commits_inv\<close>).
\<close>

record CommitGroup =
  label :: string
  commits :: "CommitInfo list"

record calendar =
  parseISO :: "string \<Rightarrow> int option"
  format_day :: "int \<Rightarrow> string"
  format_label :: "int \<Rightarrow> string"
  Date_getTime :: "string \<Rightarrow> int option"

type_synonym date_groups = "(string \<times> CommitInfo list) list"

definition map_has :: "date_groups \<Rightarrow> string \<Rightarrow> bool" where
  "map_has groups k = (k \<in> set (map fst groups))"

definition map_set :: "date_groups \<Rightarrow> string \<Rightarrow> CommitInfo list \<Rightarrow> date_groups" where
  "map_set groups k v =
     (if map_has groups k then map (\<lambda>(k', v'). if k' = k then (k', v) else (k', v')) groups
      else groups @ [(k, v)])"

definition map_get_push :: "date_groups \<Rightarrow> string \<Rightarrow> CommitInfo \<Rightarrow> date_groups" where
  "map_get_push groups k commit =
     map (\<lambda>(k', v'). if k' = k then (k', v' @ [commit]) else (k', v')) groups"

definition group_commit :: "calendar \<Rightarrow> date_groups \<Rightarrow> CommitInfo \<Rightarrow> js_error + date_groups" where
  "group_commit cal groups commit =
     (case parseISO cal (date commit) of
        None \<Rightarrow> Inl RangeError
      | Some d \<Rightarrow>
          let dateKey = format_day cal d;
              groups = (if \<not> map_has groups dateKey then map_set groups dateKey [] else groups)
          in Inr (map_get_push groups dateKey commit))"

fun group_commits :: "calendar \<Rightarrow> date_groups \<Rightarrow> CommitInfo list \<Rightarrow> js_error + date_groups" where
  "group_commits cal groups [] = Inr groups"
| "group_commits cal groups (commit # rest) =
     (case group_commit cal groups commit of
        Inl e \<Rightarrow> Inl e
      | Inr groups' \<Rightarrow> group_commits cal groups' rest)"

fun label_groups :: "calendar \<Rightarrow> date_groups \<Rightarrow> js_error + CommitGroup list" where
  "label_groups cal [] = Inr []"
| "label_groups cal ((dateKey, groupCommits) # rest) =
     (case groupCommits of
        [] \<Rightarrow> Inl TypeError
      | first # _ \<Rightarrow>
          (case parseISO cal (date first) of
             None \<Rightarrow> Inl RangeError
           | Some d \<Rightarrow>
               (case label_groups cal rest of
                  Inl e \<Rightarrow> Inl e
                | Inr result \<Rightarrow> Inr (\<lparr>label = format_label cal d, commits = groupCommits\<rparr> # result))))"

fun insert_by :: "('a \<Rightarrow> 'a \<Rightarrow> int) \<Rightarrow> 'a \<Rightarrow> 'a list \<Rightarrow> 'a list" where
  "insert_by cmp x [] = [x]"
| "insert_by cmp x (y # ys) = (if cmp x y \<le> 0 then x # y # ys else y # insert_by cmp x ys)"

definition array_sort :: "('a \<Rightarrow> 'a \<Rightarrow> int option) \<Rightarrow> 'a list \<Rightarrow> 'a list" where
  "array_sort comparefn xs =
     foldr (insert_by (\<lambda>a b. case comparefn a b of None \<Rightarrow> 0 | Some v \<Rightarrow> v)) xs []"

definition first_commit_time :: "calendar \<Rightarrow> CommitGroup \<Rightarrow> int option" where
  "first_commit_time cal g =
     (case commits g of [] \<Rightarrow> None | first # _ \<Rightarrow> Date_getTime cal (date first))"

definition by_first_commit_desc :: "calendar \<Rightarrow> CommitGroup \<Rightarrow> CommitGroup \<Rightarrow> int option" where
  "by_first_commit_desc cal a b =
     (case (first_commit_time cal b, first_commit_time cal a) of
        (Some tb, Some ta) \<Rightarrow> Some (tb - ta)
      | _ \<Rightarrow> None)"

definition groupCommitsByDate :: "calendar \<Rightarrow> CommitInfo list \<Rightarrow> js_error + CommitGroup list" where
  "groupCommitsByDate cal cs =
     (case group_commits cal [] cs of
        Inl e \<Rightarrow> Inl e
      | Inr groups \<Rightarrow>
          (case label_groups cal groups of
             Inl e \<Rightarrow> Inl e
           | Inr result \<Rightarrow> Inr (array_sort (by_first_commit_desc cal) result)))"

text \<open>
  The calendar date of a commit, the invariant of the first loop (after the commits
  \<open>seen\<close>, each key's array is the commits of that date, in order), and a calendar
  with three instants for concrete runs.
\<close>

definition calendar_date :: "calendar \<Rightarrow> CommitInfo \<Rightarrow> string option" where
  "calendar_date cal c = map_option (format_day cal) (parseISO cal (date c))"

definition groups_inv :: "calendar \<Rightarrow> date_groups \<Rightarrow> CommitInfo list \<Rightarrow> bool" where
  "groups_inv cal groups seen =
     (distinct (map fst groups)
      \<and> (\<forall>k xs. (k, xs) \<in> set groups \<longrightarrow>
            xs \<noteq> [] \<and> xs = filter (\<lambda>c. calendar_date cal c = Some k) seen)
      \<and> mset (concat (map snd groups)) = mset seen)"

definition test_instants :: "string \<Rightarrow> int option" where
  "test_instants = map_of
     [(''2024-01-15T10:00:00Z'', 1705312800000),
      (''2024-01-15T18:30:00Z'', 1705343400000),
      (''2024-01-16T09:00:00Z'', 1705395600000)]"

definition test_calendar :: calendar where
  "test_calendar =
     \<lparr>parseISO = test_instants,
      format_day = (\<lambda>t. if t < 1705363200000 then ''2024-01-15'' else ''2024-01-16''),
      format_label = (\<lambda>t. if t < 1705363200000 then ''Monday, January 15, 2024''
                           else ''Tuesday, January 16, 2024''),
      Date_getTime = test_instants\<rparr>"

definition commit_at :: "string \<Rightarrow> string \<Rightarrow> CommitInfo" where
  "commit_at d m = (commit_of_message m)\<lparr>date := d\<rparr>"

definition three_commits :: "CommitInfo list" where
  "three_commits =
     [commit_at ''2024-01-15T18:30:00Z'' ''fix parser'',
      commit_at ''2024-01-16T09:00:00Z'' ''feat: export'',
      commit_at ''2024-01-15T10:00:00Z'' ''docs'']"

definition three_commits_grouped :: "CommitGroup list" where
  "three_commits_grouped =
     [\<lparr>label = ''Tuesday, January 16, 2024'',
       commits = [commit_at ''2024-01-16T09:00:00Z'' ''feat: export'']\<rparr>,
      \<lparr>label = ''Monday, January 15, 2024'',
       commits = [commit_at ''2024-01-15T18:30:00Z'' ''fix parser'',
                  commit_at ''2024-01-15T10:00:00Z'' ''docs'']\<rparr>]"

section \<open>The repository name\<close>

text \<open>
  \<open>split\<close> with a string separator cuts at each occurrence found from the left, the
  occurrences not overlapping. \<open>pop\<close> gives the last element of an array, or nothing
  (\<open>undefined\<close>) for an empty one.

  The pattern \<open>/\/([^/]+?)(\.git)?$/\<close> of \<open>getRepoName\<close>: \<open>match\<close> takes the
  leftmost slash from which the rest of the pattern matches up to the end of the string.
  After the slash, the first group is lazy: \<open>lazy_segment\<close> tries it with one character,
  then two, and so on, none of them a slash, and stops at the first length at which the
  remainder is \<open>.git\<close> or empty. \<open>matchRepoName\<close> is the first group of the match.

  What git answers is outside the program: a \<open>git_repo\<close> holds whether the directory
  is inside a work tree, the outcome of \<open>git remote get-url origin\<close> (an error, no
  value, or the text) and the outcome of \<open>git rev-parse --show-toplevel\<close>.
\<close>

fun split_from :: "string \<Rightarrow> string \<Rightarrow> string \<Rightarrow> string list" where
  "split_from sep cur [] = [cur]"
| "split_from sep cur (c # cs) =
     (if startsWith (c # cs) sep then cur # split_from sep [] (drop (length sep - 1) cs)
      else split_from sep (cur @ [c]) cs)"

definition split :: "string \<Rightarrow> string \<Rightarrow> string list" where
  "split s sep = (if sep = [] then map (\<lambda>c. [c]) s else split_from sep [] s)"

definition pop :: "'a list \<Rightarrow> 'a option" where
  "pop xs = (if xs = [] then None else Some (last xs))"

fun lazy_segment :: "string \<Rightarrow> string \<Rightarrow> string option" where
  "lazy_segment acc rest =
     (if acc \<noteq> [] \<and> (rest = ''.git'' \<or> rest = []) then Some acc
      else (case rest of
              [] \<Rightarrow> None
            | c # cs \<Rightarrow> if c = CHR ''/'' then None else lazy_segment (acc @ [c]) cs))"

fun matchRepoName :: "string \<Rightarrow> string option" where
  "matchRepoName [] = None"
| "matchRepoName (c # cs) =
     (if c = CHR ''/''
      then (case lazy_segment [] cs of
              Some name \<Rightarrow> Some name
            | None \<Rightarrow> matchRepoName cs)
      else matchRepoName cs)"

record git_repo =
  checkIsRepo :: bool
  remote_get_url_origin :: "js_error + string option"
  revparse_show_toplevel :: "js_error + string"

definition getGit :: "git_repo \<Rightarrow> js_error + git_repo" where
  "getGit repo =
     (if \<not> checkIsRepo repo
      then Inl (Error ''Not a git repository. Please run devlog from inside a git repository.'')
      else Inr repo)"

definition getRepoName :: "git_repo \<Rightarrow> js_error + string" where
  "getRepoName repo =
     (case getGit repo of
        Inl e \<Rightarrow> Inl e
      | Inr git \<Rightarrow>
          (case (case remote_get_url_origin git of
                   Inl e \<Rightarrow> None
                 | Inr None \<Rightarrow> None
                 | Inr (Some remote) \<Rightarrow>
                     if remote \<noteq> [] then matchRepoName (trim remote) else None) of
             Some name \<Rightarrow> Inr name
           | None \<Rightarrow>
               (case revparse_show_toplevel git of
                  Inl e \<Rightarrow> Inl e
                | Inr root \<Rightarrow>
                    Inr (case pop (split (trim root) ''/'') of
                           None \<Rightarrow> ''unknown''
                         | Some name \<Rightarrow> if name \<noteq> [] then name else ''unknown''))))"

text \<open>
  The specification's words: the text after the last slash (the last path segment of a
  URL, the base name of a directory), and a name without a trailing \<open>.git\<close>. Then four
  repositories for concrete runs.
\<close>

definition after_last_slash :: "string \<Rightarrow> string" where
  "after_last_slash s = rev (takeWhile (\<lambda>c. c \<noteq> CHR ''/'') (rev s))"

definition strip_dot_git :: "string \<Rightarrow> string" where
  "strip_dot_git seg =
     (if suffix ''.git'' seg \<and> seg \<noteq> ''.git'' then take (length seg - 4) seg else seg)"

definition repo_with_remote :: git_repo where
  "repo_with_remote =
     \<lparr>checkIsRepo = True,
      remote_get_url_origin = Inr (Some ''https://github.com/org/myrepo.git\<newline>''),
      revparse_show_toplevel = Inr ''/home/dev/work\<newline>''\<rparr>"

definition repo_without_remote :: git_repo where
  "repo_without_remote =
     \<lparr>checkIsRepo = True,
      remote_get_url_origin = Inl (Error ''error: No such remote origin''),
      revparse_show_toplevel = Inr ''/home/dev/work\<newline>''\<rparr>"

definition repo_at_root :: git_repo where
  "repo_at_root =
     \<lparr>checkIsRepo = True,
      remote_get_url_origin = Inl (Error ''error: No such remote origin''),
      revparse_show_toplevel = Inr ''/\<newline>''\<rparr>"

definition repo_remote_slash :: git_repo where
  "repo_remote_slash =
     \<lparr>checkIsRepo = True,
      remote_get_url_origin = Inr (Some ''https://github.com/org/myrepo/\<newline>''),
      revparse_show_toplevel = Inr ''/home/dev/work\<newline>''\<rparr>"

section \<open>The configuration file\<close>

text \<open>
  A JavaScript value as \<open>JSON.parse\<close> can return it, and \<open>undefined\<close>. An object is the
  list of its properties in insertion order; \<open>set_prop\<close> assigns a property, in place when
  the key exists and at the end otherwise. \<open>spread obj v\<close> is \<open>{...obj, ...v}\<close>: the own
  enumerable properties of \<open>v\<close> are assigned to a copy of \<open>obj\<close> in order. Those are the
  properties of an object, the indices of an array or of a string, and nothing for the
  other values.

  The file system, the paths and the JSON parser are outside the program: a
  \<open>config_env\<close> holds the working directory, the home directory, \<open>path.join\<close>, what
  is at each path (nothing, a file that cannot be read, or a file's text) and
  \<open>JSON.parse\<close>, with \<open>None\<close> for a \<open>SyntaxError\<close>.
\<close>

datatype jsval =
    JUndefined | JNull | JBool bool | JNum int | JStr string
  | JArr "jsval list" | JObj "(string \<times> jsval) list"

type_synonym js_object = "(string \<times> jsval) list"

fun set_prop :: "js_object \<Rightarrow> string \<Rightarrow> jsval \<Rightarrow> js_object" where
  "set_prop [] k v = [(k, v)]"
| "set_prop ((k', v') # obj) k v =
     (if k' = k then (k', v) # obj else (k', v') # set_prop obj k v)"

text \<open>The key of an array index: its decimal digits, the most significant first.\<close>

definition decimal_digit :: "nat \<Rightarrow> char" where
  "decimal_digit d = ''0123456789'' ! d"

function index_key :: "nat \<Rightarrow> string" where
  "index_key i =
     (if i div 10 = 0 then [decimal_digit (i mod 10)]
      else index_key (i div 10) @ [decimal_digit (i mod 10)])"
  by pat_completeness auto
termination
  by (relation "measure id") auto

definition index_props :: "jsval list \<Rightarrow> js_object" where
  "index_props xs = map (\<lambda>i. (index_key i, xs ! i)) [0..<length xs]"

fun own_props :: "jsval \<Rightarrow> js_object" where
  "own_props (JObj props) = props"
| "own_props (JArr xs) = index_props xs"
| "own_props (JStr s) = index_props (map (\<lambda>c. JStr [c]) s)"
| "own_props _ = []"

definition spread :: "js_object \<Rightarrow> jsval \<Rightarrow> js_object" where
  "spread obj v = foldl (\<lambda>obj (k, x). set_prop obj k x) obj (own_props v)"

definition DEFAULT_CONFIG :: js_object where
  "DEFAULT_CONFIG =
     [(''format'', JStr ''terminal''),
      (''useCopilot'', JBool True),
      (''author'', JUndefined),
      (''showFiles'', JBool True),
      (''showStats'', JBool True),
      (''maxCommits'', JNum 100)]"

datatype file_state = Missing | Unreadable | Contents string

record config_env =
  process_cwd :: string
  os_homedir :: string
  path_join :: "string \<Rightarrow> string \<Rightarrow> string"
  fs :: "string \<Rightarrow> file_state"
  JSON_parse :: "string \<Rightarrow> jsval option"

definition existsSync :: "config_env \<Rightarrow> string \<Rightarrow> bool" where
  "existsSync env p = (fs env p \<noteq> Missing)"

definition readFileSync :: "config_env \<Rightarrow> string \<Rightarrow> js_error + string" where
  "readFileSync env p =
     (case fs env p of
        Contents s \<Rightarrow> Inr s
      | Unreadable \<Rightarrow> Inl (Error ''EACCES'')
      | Missing \<Rightarrow> Inl (Error ''ENOENT''))"

definition searchPaths :: "config_env \<Rightarrow> string option \<Rightarrow> string list" where
  "searchPaths env cwd =
     (let base = (case cwd of
                    Some c \<Rightarrow> if c \<noteq> [] then c else process_cwd env
                  | None \<Rightarrow> process_cwd env)
      in [path_join env base ''.devlogrc'',
          path_join env base ''.devlogrc.json'',
          path_join env (os_homedir env) ''.devlogrc'',
          path_join env (os_homedir env) ''.devlogrc.json''])"

text \<open>The body of the loop: \<open>Some\<close> when it returns, \<open>None\<close> when the loop goes on.\<close>

definition try_config :: "config_env \<Rightarrow> string \<Rightarrow> js_object option" where
  "try_config env configPath =
     (if existsSync env configPath
      then (case readFileSync env configPath of
              Inl e \<Rightarrow> None
            | Inr content \<Rightarrow>
                (case JSON_parse env content of
                   None \<Rightarrow> None
                 | Some userConfig \<Rightarrow> Some (spread DEFAULT_CONFIG userConfig)))
      else None)"

fun try_configs :: "config_env \<Rightarrow> string list \<Rightarrow> js_error + js_object" where
  "try_configs env [] = Inr DEFAULT_CONFIG"
| "try_configs env (configPath # rest) =
     (case try_config env configPath of
        Some config \<Rightarrow> Inr config
      | None \<Rightarrow> try_configs env rest)"

definition loadConfig :: "config_env \<Rightarrow> string option \<Rightarrow> js_error + js_object" where
  "loadConfig env cwd = try_configs env (searchPaths env cwd)"

text \<open>
  A searched path is usable when it holds a file whose text parses. Then two
  environments for concrete runs: one with no configuration file, one with an
  unparsable file in the working directory and a parsable one in the home directory.
\<close>

definition usable :: "config_env \<Rightarrow> string \<Rightarrow> bool" where
  "usable env p = (case fs env p of Contents s \<Rightarrow> JSON_parse env s \<noteq> None | _ \<Rightarrow> False)"

definition user_json :: string where
  "user_json = ''{'' @ dq @ ''useCopilot'' @ dq @ '': false}''"

definition empty_env :: config_env where
  "empty_env =
     \<lparr>process_cwd = ''/home/dev/work'', os_homedir = ''/home/dev'',
      path_join = (\<lambda>a b. a @ ''/'' @ b),
      fs = (\<lambda>p. Missing),
      JSON_parse = (\<lambda>s. None)\<rparr>"

definition home_env :: config_env where
  "home_env =
     \<lparr>process_cwd = ''/home/dev/work'', os_homedir = ''/home/dev'',
      path_join = (\<lambda>a b. a @ ''/'' @ b),
      fs = (\<lambda>p. if p = ''/home/dev/work/.devlogrc'' then Contents ''not json''
                else if p = ''/home/dev/.devlogrc'' then Contents user_json
                else Missing),
      JSON_parse = (\<lambda>s. if s = user_json then Some (JObj [(''useCopilot'', JBool False)])
                        else None)\<rparr>"

section \<open>The recap command\<close>

text \<open>
  The action of \<open>recap <range>\<close>. What it does to the outside is recorded as a trace
  of effects, in order: what it prints (the call and its varying arguments, not the
  fixed text and colours), the child processes it starts, the calls that query git, the
  file it writes. The action returns the trace and \<open>Some\<close> of the exit status when it
  ends the process (\<open>process.exit\<close>), \<open>None\<close> when it returns.

  The two git queries run under one \<open>Promise.all\<close>: both are started, and the action
  goes on when both have succeeded; when both fail, the error of the first listed is
  taken. \<open>getCommitsRange\<close> checks the repository, then reads the log of the range and
  the diff of each commit: \<open>log_range\<close> stands for that second part. The export
  functions belong to the export module and only produce the text to write or print:
  they are parameters, as are the dates and writing the file.
\<close>

fun truthy :: "jsval \<Rightarrow> bool" where
  "truthy JUndefined = False"
| "truthy JNull = False"
| "truthy (JBool b) = b"
| "truthy (JNum n) = (n \<noteq> 0)"
| "truthy (JStr s) = (s \<noteq> [])"
| "truthy (JArr xs) = True"
| "truthy (JObj props) = True"

definition get_prop :: "js_object \<Rightarrow> string \<Rightarrow> jsval" where
  "get_prop obj k = (case map_of obj k of None \<Rightarrow> JUndefined | Some v \<Rightarrow> v)"

datatype git_query = LogRange string string | RepoName

datatype effect =
    PrintBanner
  | ReadConfig
  | Spawned invocation
  | PrintCopilotStatus bool
  | PrintError string
  | PrintErrorMessage js_error
  | SpinnerStart string
  | SpinnerStop
  | GitCall git_query
  | PrintHeader string string string
  | PrintWarning string
  | PrintFooter
  | PrintStats "CommitInfo list"
  | PrintGroupedCommits "CommitGroup list"
  | PrintSummary string string
  | WriteFile string string
  | PrintInfo string
  | ConsoleLog string
  | UnhandledRejection js_error

record recap_options =
  "output" :: "string option"
  json :: bool
  ai :: bool

record recap_world =
  config_files :: config_env
  cli :: child_process
  work_tree :: git_repo
  log_range :: "string \<Rightarrow> string \<Rightarrow> js_error + CommitInfo list"
  dates :: calendar
  exportDailyMarkdown :: "string \<Rightarrow> string \<Rightarrow> CommitInfo list \<Rightarrow> string \<Rightarrow> string"
  exportJSON :: "string \<Rightarrow> string \<Rightarrow> string \<Rightarrow> CommitInfo list \<Rightarrow> string \<Rightarrow> string"
  writeFileSync :: "string \<Rightarrow> string \<Rightarrow> js_error option"

definition getCommitsRange :: "recap_world \<Rightarrow> string \<Rightarrow> string \<Rightarrow> js_error + CommitInfo list" where
  "getCommitsRange world from to =
     (case getGit (work_tree world) of
        Inl e \<Rightarrow> Inl e
      | Inr git \<Rightarrow> log_range world from to)"

definition usage_error :: string where
  "usage_error = ''Invalid range format. Use: devlog recap <from>..<to> (e.g., HEAD~10..HEAD)''"

text \<open>The \<open>catch\<close> of the action: the spinner stops, the message is printed, exit 1.\<close>

definition recap_catch :: "effect list \<Rightarrow> js_error \<Rightarrow> effect list \<times> nat option" where
  "recap_catch trace e = (trace @ [SpinnerStop, PrintErrorMessage e], Some 1)"

definition recap_summary ::
  "recap_world \<Rightarrow> recap_options \<Rightarrow> bool \<Rightarrow> js_object \<Rightarrow> CommitInfo list \<Rightarrow> string
   \<Rightarrow> string \<Rightarrow> string \<Rightarrow> effect list \<Rightarrow> (js_error + string) \<times> effect list" where
  "recap_summary world options copilotAvailable config cs repoName from to trace =
     (let aiSummary = []
      in if ai options \<and> copilotAvailable \<and> truthy (get_prop config ''useCopilot'')
         then
           (let trace = trace @ [SpinnerStart ''Generating AI recap with Copilot CLI...''];
                (result, spawned) = generateRangeSummary (cli world) cs repoName from to [];
                trace = trace @ map Spawned spawned
            in case result of
                 Inl e \<Rightarrow> (Inl e, trace)
               | Inr aiSummary \<Rightarrow>
                   (let trace = trace @ [SpinnerStop]
                    in if aiSummary \<noteq> [] then (Inr aiSummary, trace @ [PrintSummary ''AI Recap'' aiSummary])
                       else
                         (let aiSummary = localSummarize cs
                          in if aiSummary \<noteq> []
                             then (Inr aiSummary, trace @ [PrintSummary ''Recap'' aiSummary])
                             else (Inr aiSummary, trace))))
         else if ai options
         then (let aiSummary = localSummarize cs
               in (Inr aiSummary, trace @ [PrintSummary ''Recap'' aiSummary]))
         else (Inr aiSummary, trace))"

definition recap_export ::
  "recap_world \<Rightarrow> recap_options \<Rightarrow> CommitInfo list \<Rightarrow> string \<Rightarrow> string \<Rightarrow> string \<Rightarrow> string
   \<Rightarrow> effect list \<Rightarrow> effect list \<times> nat option" where
  "recap_export world options cs repoName from to aiSummary trace =
     (case (case output options of
              None \<Rightarrow> Inr trace
            | Some file \<Rightarrow>
                if file \<noteq> []
                then (let content = exportDailyMarkdown world repoName (from @ ''..'' @ to) cs aiSummary
                      in case writeFileSync world file content of
                           Some e \<Rightarrow> Inl (e, trace)
                         | None \<Rightarrow>
                             Inr (trace @ [WriteFile file content, PrintInfo (''Exported to '' @ file)]))
                else Inr trace) of
        Inl (e, trace) \<Rightarrow> recap_catch trace e
      | Inr trace \<Rightarrow>
          (let trace = (if json options
                        then trace @ [ConsoleLog (exportJSON world repoName from to cs aiSummary)]
                        else trace)
           in (trace @ [PrintFooter], None)))"

definition recap_body ::
  "recap_world \<Rightarrow> recap_options \<Rightarrow> bool \<Rightarrow> js_object \<Rightarrow> string \<Rightarrow> string \<Rightarrow> effect list
   \<Rightarrow> effect list \<times> nat option" where
  "recap_body world options copilotAvailable config from to trace =
     (let trace = trace @ [SpinnerStart (''Reading commits '' @ from @ ''..'' @ to @ ''...'')];
          trace = trace @ [GitCall (LogRange from to), GitCall RepoName]
      in case getCommitsRange world from to of
           Inl e \<Rightarrow> recap_catch trace e
         | Inr cs \<Rightarrow>
             (case getRepoName (work_tree world) of
                Inl e \<Rightarrow> recap_catch trace e
              | Inr repoName \<Rightarrow>
                  (let trace = trace @ [SpinnerStop, PrintHeader repoName from to]
                   in if length cs = 0
                      then (trace @ [PrintWarning ''No commits found in this range.'', PrintFooter], None)
                      else
                        (let trace = trace @ [PrintStats cs]
                         in case groupCommitsByDate (dates world) cs of
                              Inl e \<Rightarrow> recap_catch trace e
                            | Inr groups \<Rightarrow>
                                (let trace = trace @ [PrintGroupedCommits groups]
                                 in case recap_summary world options copilotAvailable config cs
                                           repoName from to trace of
                                      (Inl e, trace) \<Rightarrow> recap_catch trace e
                                    | (Inr aiSummary, trace) \<Rightarrow>
                                        recap_export world options cs repoName from to aiSummary
                                          trace)))))"

definition recap :: "recap_world \<Rightarrow> string \<Rightarrow> recap_options \<Rightarrow> effect list \<times> nat option" where
  "recap world rangeArg options =
     (let trace = [PrintBanner, ReadConfig]
      in case loadConfig (config_files world) None of
           Inl e \<Rightarrow> (trace @ [UnhandledRejection e], Some 1)
         | Inr config \<Rightarrow>
             (case isCopilotCliAvailable (cli world) [] of
                (Inl e, spawned) \<Rightarrow> (trace @ map Spawned spawned @ [UnhandledRejection e], Some 1)
              | (Inr copilotAvailable, spawned) \<Rightarrow>
                  (let trace = trace @ map Spawned spawned @ [PrintCopilotStatus copilotAvailable];
                       parts = split rangeArg ''..''
                   in if length parts \<noteq> 2
                      then (trace @ [PrintError usage_error], Some 1)
                      else
                        (let from = parts ! 0;
                             to = parts ! 1
                         in recap_body world options copilotAvailable config from to trace))))"

text \<open>
  The positions at which a separator occurs in a string; the trace of the action up to
  the check of the range argument; the effects that start the reading of the commits; a
  world and options for concrete runs; and the two properties of traces the claims are
  about: the usage error is not printed, and a trace extends another.
\<close>

definition occurrences :: "string \<Rightarrow> string \<Rightarrow> nat list" where
  "occurrences sep s = filter (\<lambda>i. startsWith (drop i s) sep) [0..<Suc (length s)]"

definition recap_prefix :: "recap_world \<Rightarrow> effect list" where
  "recap_prefix world =
     [PrintBanner, ReadConfig, Spawned probe_invocation,
      PrintCopilotStatus (case cli world probe_invocation of
                            Inl err \<Rightarrow> False
                          | Inr out \<Rightarrow> includes_str out ''Copilot CLI'')]"

definition reading_commits :: "string \<Rightarrow> string \<Rightarrow> effect list" where
  "reading_commits from to =
     [SpinnerStart (''Reading commits '' @ from @ ''..'' @ to @ ''...''),
      GitCall (LogRange from to), GitCall RepoName]"

definition sample_world :: recap_world where
  "sample_world =
     \<lparr>config_files = empty_env, cli = absent_cli, work_tree = repo_with_remote,
      log_range = (\<lambda>from to. Inr two_commits), dates = test_calendar,
      exportDailyMarkdown = (\<lambda>repoName title cs summary. summary),
      exportJSON = (\<lambda>repoName from to cs summary. summary),
      writeFileSync = (\<lambda>file content. None)\<rparr>"

definition sample_options :: recap_options where
  "sample_options = \<lparr>output = None, json = False, ai = True\<rparr>"

definition no_usage_error :: "effect list \<Rightarrow> bool" where
  "no_usage_error trace = (PrintError usage_error \<notin> set trace)"

definition extends :: "effect list \<Rightarrow> effect list \<Rightarrow> bool" where
  "extends t t' = (prefix t t' \<and> (no_usage_error t \<longrightarrow> no_usage_error t'))"

section \<open>Properties of the string functions\<close>

lemma startsWith_prefix: "startsWith s p \<longleftrightarrow> prefix p s"
  by (induction s p rule: startsWith.induct) auto

lemma includes_str_sublist: "includes_str s p \<longleftrightarrow> sublist p s"
  by (induction s) (auto simp: startsWith_prefix sublist_Cons_right)

lemma dropWhile_all_append:
  "\<forall>c\<in>set w. P c \<Longrightarrow> dropWhile P (w @ y) = dropWhile P y"
  by (induction w) auto

lemma last_dropWhile: "dropWhile P xs \<noteq> [] \<Longrightarrow> last (dropWhile P xs) = last xs"
  by (induction xs) (auto split: if_splits)

lemma trim_append_whitespace:
  assumes "\<forall>c\<in>set w. isWhiteSpace c"
  shows "trim (x @ w) = trim x"
proof (cases "\<forall>c\<in>set x. isWhiteSpace c")
  case True
  with assms have e: "dropWhile isWhiteSpace (x @ w) = []" "dropWhile isWhiteSpace x = []"
    by (auto simp: dropWhile_eq_Nil_conv)
  show ?thesis by (simp only: trim_def e)
next
  case False
  then have "dropWhile isWhiteSpace (x @ w) = dropWhile isWhiteSpace x @ w"
    by (auto simp: dropWhile_append1)
  moreover from assms have "dropWhile isWhiteSpace (rev w @ rev (dropWhile isWhiteSpace x)) =
      dropWhile isWhiteSpace (rev (dropWhile isWhiteSpace x))"
    by (intro dropWhile_all_append) simp
  ultimately show ?thesis
    by (simp add: trim_def)
qed

text \<open>A trimmed string neither starts nor ends with white space.\<close>

lemma trim_ends:
  assumes "trim s \<noteq> []"
  shows "\<not> isWhiteSpace (hd (trim s)) \<and> \<not> isWhiteSpace (last (trim s))"
proof -
  define d where "d = dropWhile isWhiteSpace s"
  define e where "e = dropWhile isWhiteSpace (rev d)"
  have ts: "trim s = rev e"
    by (simp add: trim_def d_def e_def)
  with assms have e: "e \<noteq> []" by simp
  then have d: "d \<noteq> []" by (auto simp: e_def)
  have "\<not> isWhiteSpace (hd e)"
    using e unfolding e_def by (rule hd_dropWhile)
  then have l: "\<not> isWhiteSpace (last (trim s))"
    using e by (simp add: ts last_rev)
  have "last e = last (rev d)"
    using e unfolding e_def by (rule last_dropWhile)
  then have "hd (trim s) = hd d"
    using e d by (simp add: ts hd_rev last_rev)
  moreover have "\<not> isWhiteSpace (hd d)"
    using d unfolding d_def by (rule hd_dropWhile)
  ultimately show ?thesis using l by simp
qed

lemma trim_nonempty:
  assumes "c \<in> set s" "\<not> isWhiteSpace c"
  shows "trim s \<noteq> []"
proof -
  define d where "d = dropWhile isWhiteSpace s"
  from assms have d: "d \<noteq> []"
    by (auto simp: d_def dropWhile_eq_Nil_conv)
  then have "\<not> isWhiteSpace (hd d)"
    unfolding d_def by (rule hd_dropWhile)
  moreover from d have "hd d \<in> set (rev d)" by simp
  ultimately have "dropWhile isWhiteSpace (rev d) \<noteq> []"
    unfolding dropWhile_eq_Nil_conv by blast
  then show ?thesis by (simp add: trim_def d_def)
qed

section \<open>The local summarizer\<close>

lemma categorize_commit_bucket:
  "categorize_commit cats c =
     (case spec_bucket (message c) of
        Features \<Rightarrow> cats\<lparr>features := features cats @ [message c]\<rparr>
      | Fixes \<Rightarrow> cats\<lparr>fixes := fixes cats @ [message c]\<rparr>
      | Other \<Rightarrow> cats\<lparr>other := other cats @ [message c]\<rparr>)"
  unfolding categorize_commit_def spec_bucket_def Let_def startsWith_prefix includes_str_sublist
    spec_is_feature_def [symmetric, unfolded Let_def] spec_is_fix_def [symmetric, unfolded Let_def]
  by simp

lemma foldl_categorize:
  "foldl categorize_commit cats cs =
     \<lparr>features = features cats @ in_bucket Features cs,
      fixes = fixes cats @ in_bucket Fixes cs,
      other = other cats @ in_bucket Other cs\<rparr>"
proof (induction cs arbitrary: cats)
  case Nil
  show ?case by (simp add: in_bucket_def)
next
  case (Cons c cs)
  have "foldl categorize_commit cats (c # cs) =
      foldl categorize_commit (categorize_commit cats c) cs"
    by simp
  also have "\<dots> =
     \<lparr>features = features (categorize_commit cats c) @ in_bucket Features cs,
      fixes = fixes (categorize_commit cats c) @ in_bucket Fixes cs,
      other = other (categorize_commit cats c) @ in_bucket Other cs\<rparr>"
    by (rule Cons.IH)
  finally have step: "foldl categorize_commit cats (c # cs) =
     \<lparr>features = features (categorize_commit cats c) @ in_bucket Features cs,
      fixes = fixes (categorize_commit cats c) @ in_bucket Fixes cs,
      other = other (categorize_commit cats c) @ in_bucket Other cs\<rparr>" .
  show ?case
  proof (cases "spec_bucket (message c)")
    case Features
    then have "categorize_commit cats c = cats\<lparr>features := features cats @ [message c]\<rparr>"
      by (simp add: categorize_commit_bucket)
    with Features show ?thesis by (simp only: step) (simp add: in_bucket_def)
  next
    case Fixes
    then have "categorize_commit cats c = cats\<lparr>fixes := fixes cats @ [message c]\<rparr>"
      by (simp add: categorize_commit_bucket)
    with Fixes show ?thesis by (simp only: step) (simp add: in_bucket_def)
  next
    case Other
    then have "categorize_commit cats c = cats\<lparr>other := other cats @ [message c]\<rparr>"
      by (simp add: categorize_commit_bucket)
    with Other show ?thesis by (simp only: step) (simp add: in_bucket_def)
  qed
qed

lemma categorize_buckets:
  "categorize cs =
     \<lparr>features = in_bucket Features cs, fixes = in_bucket Fixes cs, other = in_bucket Other cs\<rparr>"
  by (simp add: categorize_def foldl_categorize)

lemma mset_buckets:
  "mset (in_bucket Features cs @ in_bucket Fixes cs @ in_bucket Other cs) = mset (map message cs)"
proof (induction cs)
  case Nil
  show ?case by (simp add: in_bucket_def)
next
  case (Cons c cs)
  then show ?case
    by (cases "spec_bucket (message c)") (simp_all add: in_bucket_def)
qed

lemma toLowerCase_example: "toLowerCase ''Add bug tracker'' = ''add bug tracker''"
  by code_simp

lemma summary_sections:
  assumes ws: "\<forall>c\<in>set nn. isWhiteSpace c"
  shows "(let summary = [];
              summary = (if length m1 > 0 then summary @ h1 @ b m1 @ nn else summary);
              summary = (if length m2 > 0 then summary @ h2 @ b m2 @ nn else summary);
              summary = (if length m3 > 0 then summary @ h3 @ b m3 @ nn else summary)
          in trim summary) =
         trim (join nn (map (\<lambda>(h, ms). h @ b ms)
           (filter (\<lambda>(h, ms). ms \<noteq> []) [(h1, m1), (h2, m2), (h3, m3)])))"
proof -
  have t: "trim (x @ nn) = trim x" for x
    by (rule trim_append_whitespace [OF ws])
  have t2: "trim (x1 @ x2 @ nn) = trim (x1 @ x2)" for x1 x2
    using t [of "x1 @ x2"] by simp
  have t5: "trim (x1 @ x2 @ x3 @ x4 @ x5 @ nn) = trim (x1 @ x2 @ x3 @ x4 @ x5)"
    for x1 x2 x3 x4 x5
    using t [of "x1 @ x2 @ x3 @ x4 @ x5"] by simp
  have t8: "trim (x1 @ x2 @ x3 @ x4 @ x5 @ x6 @ x7 @ x8 @ nn) =
      trim (x1 @ x2 @ x3 @ x4 @ x5 @ x6 @ x7 @ x8)"
    for x1 x2 x3 x4 x5 x6 x7 x8
    using t [of "x1 @ x2 @ x3 @ x4 @ x5 @ x6 @ x7 @ x8"] by simp
  show ?thesis
    by (cases "m1 = []"; cases "m2 = []"; cases "m3 = []") (simp_all add: t2 t5 t8)
qed

lemma localSummarize_report:
  assumes "cs \<noteq> []"
  shows "localSummarize cs = spec_report (categorize cs)"
proof -
  have ws: "\<forall>c\<in>set ''\<newline>\<newline>''. isWhiteSpace c"
    by (simp add: isWhiteSpace_def)
  show ?thesis
    using assms summary_sections [OF ws, of "features (categorize cs)" "''Features:\<newline>''" bullets
        "fixes (categorize cs)" "''Fixes:\<newline>''" "other (categorize cs)" "''Other:\<newline>''"]
    by (simp add: localSummarize_def spec_report_def Let_def spec_section_def bullets_def)
qed

text \<open>
  Claim C3. For every commit list, the loop of \<open>localSummarize\<close> leaves in each bucket
  exactly the messages, in input order, that the classification rule sends there:
  features first, then fixes, else other, on the lower-cased message. The three buckets
  together hold every message exactly once, and the report of a nonempty list is the
  report of these buckets. A message containing both \<open>add\<close> and \<open>bug\<close> goes to the
  features bucket.
\<close>

theorem C3_bucket_classification:
  "categorize cs =
     \<lparr>features = in_bucket Features cs, fixes = in_bucket Fixes cs, other = in_bucket Other cs\<rparr>
   \<and> mset (features (categorize cs) @ fixes (categorize cs) @ other (categorize cs)) =
       mset (map message cs)
   \<and> (cs \<noteq> [] \<longrightarrow>
        localSummarize cs =
          spec_report \<lparr>features = in_bucket Features cs, fixes = in_bucket Fixes cs,
                       other = in_bucket Other cs\<rparr>)
   \<and> (sublist ''add'' (toLowerCase (message c)) \<and> sublist ''bug'' (toLowerCase (message c))
        \<longrightarrow> categorize [c] = \<lparr>features = [message c], fixes = [], other = []\<rparr>)"
proof (intro conjI impI)
  show "categorize cs =
     \<lparr>features = in_bucket Features cs, fixes = in_bucket Fixes cs, other = in_bucket Other cs\<rparr>"
    by (rule categorize_buckets)
  show "mset (features (categorize cs) @ fixes (categorize cs) @ other (categorize cs)) =
       mset (map message cs)"
    using mset_buckets [of cs] by (simp add: categorize_buckets)
next
  assume "cs \<noteq> []"
  then have "localSummarize cs = spec_report (categorize cs)"
    by (rule localSummarize_report)
  then show "localSummarize cs =
          spec_report \<lparr>features = in_bucket Features cs, fixes = in_bucket Fixes cs,
                       other = in_bucket Other cs\<rparr>"
    by (simp only: categorize_buckets)
next
  assume "sublist ''add'' (toLowerCase (message c)) \<and> sublist ''bug'' (toLowerCase (message c))"
  then have "spec_bucket (message c) = Features"
    by (simp add: spec_bucket_def spec_is_feature_def)
  then show "categorize [c] = \<lparr>features = [message c], fixes = [], other = []\<rparr>"
    by (simp add: categorize_buckets in_bucket_def)
qed

lemma add_bug_report:
  "spec_report \<lparr>features = in_bucket Features [commit_of_message ''Add bug tracker''],
      fixes = in_bucket Fixes [commit_of_message ''Add bug tracker''],
      other = in_bucket Other [commit_of_message ''Add bug tracker'']\<rparr> =
     ''Features:\<newline>  - Add bug tracker''"
  by code_simp

theorem C3_bucket_classification_witness:
  "sublist ''add'' (toLowerCase (message (commit_of_message ''Add bug tracker'')))
   \<and> sublist ''bug'' (toLowerCase (message (commit_of_message ''Add bug tracker'')))
   \<and> categorize [commit_of_message ''Add bug tracker''] =
       \<lparr>features = [''Add bug tracker''], fixes = [], other = []\<rparr>
   \<and> localSummarize [commit_of_message ''Add bug tracker''] =
       ''Features:\<newline>  - Add bug tracker''"
proof -
  define c where "c = commit_of_message ''Add bug tracker''"
  have m: "message c = ''Add bug tracker''"
    by (simp add: c_def commit_of_message_def)
  have h: "sublist ''add'' (toLowerCase (message c)) \<and> sublist ''bug'' (toLowerCase (message c))"
    unfolding m toLowerCase_example includes_str_sublist [symmetric] by simp
  have n: "[c] \<noteq> []" by simp
  note t = C3_bucket_classification [of "[c]" c]
  from t h have 1: "categorize [c] = \<lparr>features = [message c], fixes = [], other = []\<rparr>"
    by blast
  from t n have 2: "localSummarize [c] =
      spec_report \<lparr>features = in_bucket Features [c], fixes = in_bucket Fixes [c],
                   other = in_bucket Other [c]\<rparr>"
    by blast
  have m': "message (commit_of_message ''Add bug tracker'') = ''Add bug tracker''"
    by (simp add: commit_of_message_def)
  from h 1 2 show ?thesis
    unfolding c_def m' add_bug_report by blast
qed

lemma isWhiteSpace_header: "\<not> isWhiteSpace CHR ''F''" "\<not> isWhiteSpace CHR ''O''"
  by (simp_all add: isWhiteSpace_def)

lemma spec_report_nonempty:
  assumes "features cats @ fixes cats @ other cats \<noteq> []"
  shows "spec_report cats \<noteq> []"
proof -
  let ?j = "join ''\<newline>\<newline>''
       (map (\<lambda>(header, ms). spec_section header ms)
         (filter (\<lambda>(header, ms). ms \<noteq> [])
           [(''Features:'', features cats), (''Fixes:'', fixes cats), (''Other:'', other cats)]))"
  have "CHR ''F'' \<in> set ?j \<or> CHR ''O'' \<in> set ?j"
    using assms
    by (cases "features cats = []"; cases "fixes cats = []"; cases "other cats = []")
       (simp_all add: spec_section_def)
  then show ?thesis
    unfolding spec_report_def using trim_nonempty isWhiteSpace_header by blast
qed

text \<open>
  Claim C4. On the empty list \<open>localSummarize\<close> returns the fixed message. On a nonempty
  list its result is the report the specification describes: for each nonempty bucket,
  and for no empty one, a header line and one bullet line per message, the sections
  joined by a blank line, the whole trimmed. The result is then nonempty and neither
  starts nor ends with white space.
\<close>

theorem C4_localSummarize_report:
  "localSummarize [] = ''No commits found in this period.''
   \<and> (cs \<noteq> [] \<longrightarrow>
        localSummarize cs = spec_report (categorize cs)
        \<and> localSummarize cs \<noteq> []
        \<and> \<not> isWhiteSpace (hd (localSummarize cs))
        \<and> \<not> isWhiteSpace (last (localSummarize cs)))"
proof (intro conjI impI)
  show "localSummarize [] = ''No commits found in this period.''"
    by (simp add: localSummarize_def)
next
  assume cs: "cs \<noteq> []"
  show r: "localSummarize cs = spec_report (categorize cs)"
    using cs by (rule localSummarize_report)
  have "mset (features (categorize cs) @ fixes (categorize cs) @ other (categorize cs)) \<noteq> {#}"
    using cs mset_buckets [of cs] by (simp add: categorize_buckets)
  then have "features (categorize cs) @ fixes (categorize cs) @ other (categorize cs) \<noteq> []"
    by (simp only: mset_zero_iff) simp
  then show n: "localSummarize cs \<noteq> []"
    unfolding r by (rule spec_report_nonempty)
  from n have "trim (join ''\<newline>\<newline>''
       (map (\<lambda>(header, ms). spec_section header ms)
         (filter (\<lambda>(header, ms). ms \<noteq> [])
           [(''Features:'', features (categorize cs)), (''Fixes:'', fixes (categorize cs)),
            (''Other:'', other (categorize cs))]))) \<noteq> []"
    by (simp add: r spec_report_def)
  from trim_ends [OF this]
  show "\<not> isWhiteSpace (hd (localSummarize cs))" "\<not> isWhiteSpace (last (localSummarize cs))"
    by (simp_all add: r spec_report_def)
qed

lemma two_commits_report:
  "spec_report (categorize two_commits) =
     ''Features:\<newline>  - Add bug tracker\<newline>\<newline>Fixes:\<newline>  - fix typo''"
  by code_simp

theorem C4_localSummarize_report_witness:
  "two_commits \<noteq> []
   \<and> localSummarize two_commits =
       ''Features:\<newline>  - Add bug tracker\<newline>\<newline>Fixes:\<newline>  - fix typo''"
  using C4_localSummarize_report [of two_commits]
  by (simp add: two_commits_report) (simp add: two_commits_def)

section \<open>Sanitizing the output of the AI command\<close>


























section \<open>The external AI command\<close>

lemma isCopilotCliAvailable_eq:
  "isCopilotCliAvailable run spawned =
     (Inr (case run probe_invocation of Inl err \<Rightarrow> False | Inr out \<Rightarrow> includes_str out ''Copilot CLI''),
      spawned @ [probe_invocation])"
  by (simp add: isCopilotCliAvailable_def execFileAsync_def probe_invocation_def split: sum.splits)

lemma askCopilot_eq:
  "askCopilot run prompt spawned =
     (Inr (case run (prompt_invocation prompt) of Inl err \<Rightarrow> '''' | Inr out \<Rightarrow> cleanCopilotOutput out),
      spawned @ [prompt_invocation prompt])"
  by (simp add: askCopilot_def execFileAsync_def prompt_invocation_def split: sum.splits)






section \<open>Grouping commits by date\<close>

lemma push_absent: "k \<notin> fst ` set groups \<Longrightarrow> map_get_push groups k c = groups"
  by (induction groups) (auto simp: map_get_push_def)

lemma push_new:
  "\<not> map_has groups k \<Longrightarrow>
     map_get_push (map_set groups k []) k c = groups @ [(k, [c])]"
proof -
  assume a: "\<not> map_has groups k"
  then have "k \<notin> fst ` set groups" by (simp add: map_has_def)
  from push_absent [OF this, of c] a show ?thesis
    by (simp add: map_set_def) (simp add: map_get_push_def)
qed

lemma push_keys: "map fst (map_get_push groups k c) = map fst groups"
  by (induction groups) (auto simp: map_get_push_def)

lemma push_mset:
  "distinct (map fst groups) \<Longrightarrow> map_has groups k \<Longrightarrow>
     mset (concat (map snd (map_get_push groups k c))) = mset (concat (map snd groups)) + {#c#}"
proof (induction groups)
  case Nil
  then show ?case by (simp add: map_has_def)
next
  case (Cons g groups)
  obtain k' xs where g: "g = (k', xs)" by (cases g)
  show ?case
  proof (cases "k' = k")
    case True
    with Cons.prems g have "k \<notin> set (map fst groups)" by simp
    then have "map_get_push groups k c = groups"
      by (induction groups) (auto simp: map_get_push_def)
    then have "map_get_push (g # groups) k c = (k, xs @ [c]) # groups"
      using True g by (simp add: map_get_push_def)
    then show ?thesis using g by simp
  next
    case False
    with Cons.prems g have "map_has groups k" "distinct (map fst groups)"
      by (auto simp: map_has_def)
    from Cons.IH [OF this(2,1)] False g show ?thesis
      by (simp add: map_get_push_def)
  qed
qed

lemma push_entries:
  "(k', xs) \<in> set (map_get_push groups k c) \<longleftrightarrow>
     (\<exists>xs0. (k', xs0) \<in> set groups \<and> xs = (if k' = k then xs0 @ [c] else xs0))"
proof (induction groups)
  case Nil
  show ?case by (simp add: map_get_push_def)
next
  case (Cons g groups)
  obtain a b where g: "g = (a, b)" by (cases g)
  have "map_get_push (g # groups) k c =
      (if a = k then (a, b @ [c]) else (a, b)) # map_get_push groups k c"
    by (simp add: map_get_push_def g)
  with Cons g show ?case by auto
qed

lemma inv_covers:
  assumes "groups_inv cal groups seen" "c \<in> set seen"
  shows "\<exists>k. calendar_date cal c = Some k \<and> map_has groups k"
proof -
  from assms have "c \<in># mset (concat (map snd groups))"
    by (simp add: groups_inv_def)
  then obtain k xs where kx: "(k, xs) \<in> set groups" "c \<in> set xs"
    by auto
  with assms(1) have "xs = filter (\<lambda>c. calendar_date cal c = Some k) seen"
    by (auto simp: groups_inv_def)
  with kx show ?thesis
    by (force simp: map_has_def)
qed

lemma group_commit_inv:
  assumes inv: "groups_inv cal groups seen" and valid: "parseISO cal (date c) = Some d"
  shows "\<exists>groups'. group_commit cal groups c = Inr groups' \<and> groups_inv cal groups' (seen @ [c])"
proof -
  define k where "k = format_day cal d"
  have key: "calendar_date cal c = Some k"
    by (simp add: calendar_date_def valid k_def)
  show ?thesis
  proof (cases "map_has groups k")
    case False
    then have r: "group_commit cal groups c = Inr (groups @ [(k, [c])])"
      by (simp add: group_commit_def valid k_def [symmetric] push_new)
    have none: "filter (\<lambda>c. calendar_date cal c = Some k) seen = []"
    proof -
      have "calendar_date cal x \<noteq> Some k" if "x \<in> set seen" for x
        using inv_covers [OF inv that] False by auto
      then show ?thesis by (simp add: filter_empty_conv)
    qed
    have other: "filter (\<lambda>c. calendar_date cal c = Some k') (seen @ [c]) =
        filter (\<lambda>c. calendar_date cal c = Some k') seen" if "(k', xs) \<in> set groups" for k' xs
    proof -
      from that False have "k' \<noteq> k" by (force simp: map_has_def)
      then show ?thesis by (simp add: key)
    qed
    have "groups_inv cal (groups @ [(k, [c])]) (seen @ [c])"
      using inv False none other
      by (auto simp: groups_inv_def map_has_def key)
    with r show ?thesis by blast
  next
    case True
    then have r: "group_commit cal groups c = Inr (map_get_push groups k c)"
      by (simp add: group_commit_def valid k_def [symmetric])
    have "groups_inv cal (map_get_push groups k c) (seen @ [c])"
      unfolding groups_inv_def
    proof (intro conjI)
      show "distinct (map fst (map_get_push groups k c))"
        using inv by (simp add: push_keys groups_inv_def)
      show "mset (concat (map snd (map_get_push groups k c))) = mset (seen @ [c])"
        using inv True by (simp add: push_mset groups_inv_def)
      show "\<forall>k' xs. (k', xs) \<in> set (map_get_push groups k c) \<longrightarrow>
          xs \<noteq> [] \<and> xs = filter (\<lambda>c. calendar_date cal c = Some k') (seen @ [c])"
        using inv by (auto simp: push_entries groups_inv_def key)
    qed
    with r show ?thesis by blast
  qed
qed

lemma group_commits_inv:
  assumes "groups_inv cal groups seen" "\<forall>c\<in>set cs. parseISO cal (date c) \<noteq> None"
  shows "\<exists>groups'. group_commits cal groups cs = Inr groups' \<and> groups_inv cal groups' (seen @ cs)"
  using assms
proof (induction cs arbitrary: groups seen)
  case Nil
  then show ?case by simp
next
  case (Cons c cs)
  from Cons.prems(2) obtain d where d: "parseISO cal (date c) = Some d" by auto
  from group_commit_inv [OF Cons.prems(1) d] obtain g1 where
    g1: "group_commit cal groups c = Inr g1" "groups_inv cal g1 (seen @ [c])" by blast
  from Cons.IH [OF g1(2)] Cons.prems(2) obtain g2 where
    "group_commits cal g1 cs = Inr g2" "groups_inv cal g2 ((seen @ [c]) @ cs)" by auto
  with g1 show ?case by simp
qed

lemma label_groups_ok:
  assumes "\<forall>k xs. (k, xs) \<in> set groups \<longrightarrow> xs \<noteq> [] \<and> parseISO cal (date (hd xs)) \<noteq> None"
  shows "\<exists>result. label_groups cal groups = Inr result \<and> map commits result = map snd groups"
  using assms
proof (induction groups)
  case Nil
  show ?case by simp
next
  case (Cons g groups)
  obtain k xs where g: "g = (k, xs)" by (cases g)
  from Cons.prems g have "xs \<noteq> []" "parseISO cal (date (hd xs)) \<noteq> None"
    by auto
  then obtain first rest d where
    xs: "xs = first # rest" and d: "parseISO cal (date first) = Some d"
    by (cases xs) auto
  from Cons.IH Cons.prems obtain result where
    "label_groups cal groups = Inr result" "map commits result = map snd groups"
    by auto
  with g xs d show ?case by simp
qed

lemma set_insert_by: "set (insert_by cmp x ys) = insert x (set ys)"
  by (induction ys) auto

lemma mset_insert_by: "mset (insert_by cmp x ys) = add_mset x (mset ys)"
  by (induction ys) auto

lemma mset_array_sort: "mset (array_sort comparefn xs) = mset xs"
  unfolding array_sort_def by (induction xs) (simp_all add: mset_insert_by)

lemma sorted_insert_by:
  assumes "\<forall>y\<in>set ys. cmp x y = f y - f x"
    and "sorted_wrt (\<lambda>a b. f b \<le> f a) ys"
  shows "sorted_wrt (\<lambda>a b. (f b :: int) \<le> f a) (insert_by cmp x ys)"
  using assms
proof (induction ys)
  case Nil
  show ?case by simp
next
  case (Cons y ys)
  show ?case
  proof (cases "cmp x y \<le> 0")
    case True
    with Cons.prems have "f y \<le> f x" by simp
    with Cons.prems True show ?thesis by auto
  next
    case False
    with Cons.prems have "f x \<le> f y" by simp
    with Cons False show ?thesis by (auto simp: set_insert_by)
  qed
qed

lemma sorted_array_sort:
  assumes "\<forall>a\<in>set xs. \<forall>b\<in>set xs. comparefn a b = Some (f b - f a)"
  shows "sorted_wrt (\<lambda>a b. (f b :: int) \<le> f a) (array_sort comparefn xs)"
  using assms
proof (induction xs)
  case Nil
  show ?case by (simp add: array_sort_def)
next
  case (Cons x xs)
  have s: "array_sort comparefn (x # xs) =
      insert_by (\<lambda>a b. case comparefn a b of None \<Rightarrow> 0 | Some v \<Rightarrow> v) x (array_sort comparefn xs)"
    by (simp add: array_sort_def)
  have set: "set (array_sort comparefn xs) = set xs"
    using mset_array_sort [of comparefn xs] by (metis set_mset_mset)
  from Cons have "sorted_wrt (\<lambda>a b. f b \<le> f a) (array_sort comparefn xs)" by simp
  moreover have "\<forall>y\<in>set (array_sort comparefn xs).
      (case comparefn x y of None \<Rightarrow> 0 | Some v \<Rightarrow> v) = f y - f x"
    using Cons.prems by (simp add: set)
  ultimately show ?case
    unfolding s by (intro sorted_insert_by)
qed

lemma mset_concat_perm:
  assumes "mset xs = mset ys"
  shows "mset (concat (map f xs)) = mset (concat (map f ys))"
proof -
  have "mset (concat (map f zs)) = sum_mset (image_mset (\<lambda>z. mset (f z)) (mset zs))" for zs
    by (induction zs) simp_all
  with assms show ?thesis by simp
qed

text \<open>
  Claim C2. For a commit list whose dates the date library and \<open>Date\<close> accept,
  \<open>groupCommitsByDate\<close> returns groups such that: the groups' commits, flattened, are a
  permutation of the input; each group is nonempty and is exactly the input's commits of
  one calendar date, in input order; no two groups have the same calendar date; and the
  groups are in descending order of the time of their first commit.
\<close>

theorem C2_groups_by_date:
  assumes valid: "\<forall>c\<in>set cs. parseISO cal (date c) \<noteq> None \<and> Date_getTime cal (date c) \<noteq> None"
  shows "\<exists>groups. groupCommitsByDate cal cs = Inr groups
     \<and> mset (concat (map commits groups)) = mset cs
     \<and> (\<forall>g\<in>set groups. commits g \<noteq> []
           \<and> (\<exists>k. commits g = filter (\<lambda>c. calendar_date cal c = Some k) cs))
     \<and> distinct (map (\<lambda>g. calendar_date cal (hd (commits g))) groups)
     \<and> sorted_wrt (\<lambda>g h. \<exists>tg th. first_commit_time cal g = Some tg
           \<and> first_commit_time cal h = Some th \<and> th \<le> tg) groups"
proof -
  have "groups_inv cal [] []"
    by (simp add: groups_inv_def)
  from group_commits_inv [OF this, of cs] valid obtain dg where
    dg: "group_commits cal [] cs = Inr dg" and inv: "groups_inv cal dg cs"
    by auto
  have entry: "xs \<noteq> [] \<and> xs = filter (\<lambda>c. calendar_date cal c = Some k) cs"
    if "(k, xs) \<in> set dg" for k xs
    using inv that by (simp add: groups_inv_def)
  have first: "hd xs \<in> set cs \<and> calendar_date cal (hd xs) = Some k" if "(k, xs) \<in> set dg" for k xs
  proof -
    from entry [OF that] have "hd xs \<in> set (filter (\<lambda>c. calendar_date cal c = Some k) cs)"
      by (metis hd_in_set)
    then show ?thesis by simp
  qed
  have "\<forall>k xs. (k, xs) \<in> set dg \<longrightarrow> xs \<noteq> [] \<and> parseISO cal (date (hd xs)) \<noteq> None"
    using entry first valid by blast
  from label_groups_ok [OF this] obtain gl where
    gl: "label_groups cal dg = Inr gl" and cgl: "map commits gl = map snd dg"
    by blast
  define groups where "groups = array_sort (by_first_commit_desc cal) gl"
  have res: "groupCommitsByDate cal cs = Inr groups"
    by (simp add: groupCommitsByDate_def dg gl groups_def)
  have perm: "mset groups = mset gl"
    by (simp add: groups_def mset_array_sort)
  then have set: "set groups = set gl"
    by (rule mset_eq_setD)
  have member: "\<exists>k. (k, commits g) \<in> set dg" if "g \<in> set gl" for g
  proof -
    from that have "commits g \<in> set (map commits gl)" by simp
    then show ?thesis unfolding cgl by auto
  qed
  have a: "mset (concat (map commits groups)) = mset cs"
  proof -
    have "mset (concat (map commits groups)) = mset (concat (map commits gl))"
      using perm by (rule mset_concat_perm)
    also have "\<dots> = mset (concat (map snd dg))"
      by (simp only: cgl)
    also have "\<dots> = mset cs"
      using inv by (simp add: groups_inv_def)
    finally show ?thesis .
  qed
  have b: "\<forall>g\<in>set groups. commits g \<noteq> []
           \<and> (\<exists>k. commits g = filter (\<lambda>c. calendar_date cal c = Some k) cs)"
    using member entry unfolding set by blast
  have c: "distinct (map (\<lambda>g. calendar_date cal (hd (commits g))) groups)"
  proof -
    have "map (\<lambda>g. calendar_date cal (hd (commits g))) gl =
        map (\<lambda>xs. calendar_date cal (hd xs)) (map commits gl)"
      by simp
    also have "\<dots> = map (\<lambda>xs. calendar_date cal (hd xs)) (map snd dg)"
      by (simp only: cgl)
    also have "\<dots> = map (\<lambda>e. Some (fst e)) dg"
      using first by auto
    finally have "map (\<lambda>g. calendar_date cal (hd (commits g))) gl = map Some (map fst dg)"
      by simp
    moreover have "distinct (map Some (map fst dg))"
    proof -
      from inv have "distinct (map fst dg)" by (simp add: groups_inv_def)
      then show ?thesis by (subst distinct_map) simp
    qed
    ultimately have "distinct (map (\<lambda>g. calendar_date cal (hd (commits g))) gl)"
      by simp
    moreover have "mset (map (\<lambda>g. calendar_date cal (hd (commits g))) groups) =
        mset (map (\<lambda>g. calendar_date cal (hd (commits g))) gl)"
      using perm by simp
    ultimately show ?thesis
      using mset_eq_imp_distinct_iff by blast
  qed
  have time: "\<exists>t. first_commit_time cal g = Some t" if "g \<in> set gl" for g
  proof -
    from member [OF that] obtain k where k: "(k, commits g) \<in> set dg" by blast
    from entry [OF k] first [OF k] valid
    have "commits g \<noteq> []" "Date_getTime cal (date (hd (commits g))) \<noteq> None"
      by auto
    then show ?thesis
      by (cases "commits g") (auto simp: first_commit_time_def)
  qed
  define f where "f g = the (first_commit_time cal g)" for g
  have ft: "first_commit_time cal g = Some (f g)" if "g \<in> set gl" for g
    using time [OF that] by (auto simp: f_def)
  have "\<forall>a\<in>set gl. \<forall>b\<in>set gl. by_first_commit_desc cal a b = Some (f b - f a)"
    by (simp add: by_first_commit_desc_def ft)
  then have "sorted_wrt (\<lambda>a b. f b \<le> f a) groups"
    unfolding groups_def by (rule sorted_array_sort)
  then have d: "sorted_wrt (\<lambda>g h. \<exists>tg th. first_commit_time cal g = Some tg
           \<and> first_commit_time cal h = Some th \<and> th \<le> tg) groups"
  proof (rule sorted_wrt_mono_rel [rotated])
    fix x y assume "x \<in> set groups" "y \<in> set groups" "f y \<le> f x"
    then show "\<exists>tg th. first_commit_time cal x = Some tg
           \<and> first_commit_time cal y = Some th \<and> th \<le> tg"
      using ft by (simp add: set)
  qed
  from res a b c d show ?thesis by blast
qed

lemma three_commits_valid:
  "list_all (\<lambda>c. parseISO test_calendar (date c) \<noteq> None
      \<and> Date_getTime test_calendar (date c) \<noteq> None) three_commits"
  by (simp add: three_commits_def test_calendar_def test_instants_def commit_at_def
      commit_of_message_def)

lemma three_commits_result:
  "groupCommitsByDate test_calendar three_commits = Inr three_commits_grouped"
  by code_simp

theorem C2_groups_by_date_witness:
  "list_all (\<lambda>c. parseISO test_calendar (date c) \<noteq> None
      \<and> Date_getTime test_calendar (date c) \<noteq> None) three_commits
   \<and> groupCommitsByDate test_calendar three_commits = Inr three_commits_grouped
   \<and> mset (concat (map commits three_commits_grouped)) = mset three_commits
   \<and> sorted_wrt (\<lambda>g h. \<exists>tg th. first_commit_time test_calendar g = Some tg
           \<and> first_commit_time test_calendar h = Some th \<and> th \<le> tg) three_commits_grouped"
proof -
  have "\<forall>c\<in>set three_commits. parseISO test_calendar (date c) \<noteq> None
      \<and> Date_getTime test_calendar (date c) \<noteq> None"
    using three_commits_valid by (simp add: list_all_iff)
  from C2_groups_by_date [OF this] three_commits_valid show ?thesis
    by (auto simp: three_commits_result)
qed

section \<open>The repository name\<close>

declare lazy_segment.simps [simp del]

lemma after_last_slash_Cons:
  "CHR ''/'' \<in> set cs \<Longrightarrow> after_last_slash (c # cs) = after_last_slash cs"
  by (simp add: after_last_slash_def takeWhile_append1 [where x = "CHR ''/''"])

lemma takeWhile_all: "\<forall>x\<in>set xs. P x \<Longrightarrow> takeWhile P (xs @ ys) = xs @ takeWhile P ys"
  by (induction xs) auto

lemma after_last_slash_slash:
  "CHR ''/'' \<notin> set cs \<Longrightarrow> after_last_slash (CHR ''/'' # cs) = cs"
proof -
  assume "CHR ''/'' \<notin> set cs"
  then have "\<forall>x\<in>set (rev cs). x \<noteq> CHR ''/''" by auto
  from takeWhile_all [OF this, of "''/''"] show ?thesis
    by (simp add: after_last_slash_def)
qed

lemma after_last_slash_none:
  "CHR ''/'' \<notin> set cs \<Longrightarrow> after_last_slash cs = cs"
proof -
  assume "CHR ''/'' \<notin> set cs"
  then have "\<forall>x\<in>set (rev cs). x \<noteq> CHR ''/''" by auto
  from takeWhile_all [OF this, of "[]"]
  have "takeWhile (\<lambda>c. c \<noteq> CHR ''/'') (rev cs) = rev cs" by simp
  then show ?thesis
    unfolding after_last_slash_def by (simp only: rev_rev_ident)
qed

lemma lazy_segment_slash: "CHR ''/'' \<in> set rest \<Longrightarrow> lazy_segment acc rest = None"
proof (induction rest arbitrary: acc)
  case Nil
  then show ?case by simp
next
  case (Cons c cs)
  then have "c # cs \<noteq> ''.git''" by auto
  with Cons show ?case
    by (subst lazy_segment.simps) auto
qed

lemma lazy_segment_spec:
  assumes "CHR ''/'' \<notin> set rest"
  shows "lazy_segment acc rest =
     (if acc @ rest = [] then None
      else if suffix ''.git'' rest \<and> acc @ take (length rest - 4) rest \<noteq> []
      then Some (acc @ take (length rest - 4) rest)
      else Some (acc @ rest))"
  using assms
proof (induction rest arbitrary: acc)
  case Nil
  show ?case by (subst lazy_segment.simps) simp
next
  case (Cons c cs)
  define g where "g = ''.git''"
  have g: "length g = 4" by (simp add: g_def)
  from Cons.prems have c: "c \<noteq> CHR ''/''" and cs: "CHR ''/'' \<notin> set cs" by auto
  have unfold: "lazy_segment acc (c # cs) =
      (if acc \<noteq> [] \<and> c # cs = g then Some acc else lazy_segment (acc @ [c]) cs)"
    by (subst lazy_segment.simps) (simp add: c g_def)
  have ih: "lazy_segment (acc @ [c]) cs =
      (if suffix g cs then Some (acc @ c # take (length cs - 4) cs) else Some (acc @ c # cs))"
    using Cons.IH [OF cs, of "acc @ [c]"] by (simp add: g_def)
  show ?case
  proof (cases "c # cs = g")
    case True
    then have "length (c # cs) = 4" using g by simp
    then have lcs: "length cs = 3" by simp
    then have "\<not> suffix g cs"
      using g by (auto dest!: suffix_length_le)
    with True lcs show ?thesis
      unfolding unfold ih g_def [symmetric] by auto
  next
    case False
    then have s: "suffix g (c # cs) \<longleftrightarrow> suffix g cs"
      by (auto simp: suffix_Cons)
    have t: "take (length (c # cs) - 4) (c # cs) = c # take (length cs - 4) cs" if "suffix g cs"
    proof -
      from that g have "4 \<le> length cs" by (auto dest!: suffix_length_le)
      then have "length (c # cs) - 4 = Suc (length cs - 4)" by simp
      then show ?thesis by simp
    qed
    from False show ?thesis
      unfolding unfold ih g_def [symmetric] s using t by auto
  qed
qed

lemma lazy_segment_start:
  "CHR ''/'' \<notin> set rest \<Longrightarrow>
     lazy_segment [] rest = (if rest = [] then None else Some (strip_dot_git rest))"
proof -
  assume a: "CHR ''/'' \<notin> set rest"
  have "take (length rest - 4) rest \<noteq> [] \<longleftrightarrow> rest \<noteq> ''.git''" if "suffix ''.git'' rest"
  proof -
    from that obtain p where p: "rest = p @ ''.git''" by (auto simp: suffix_def)
    then show ?thesis by auto
  qed
  then show ?thesis
    unfolding lazy_segment_spec [OF a] strip_dot_git_def by auto
qed

lemma matchRepoName_spec:
  "matchRepoName s =
     (if CHR ''/'' \<in> set s \<and> after_last_slash s \<noteq> []
      then Some (strip_dot_git (after_last_slash s)) else None)"
proof (induction s)
  case Nil
  show ?case by simp
next
  case (Cons c cs)
  show ?case
  proof (cases "CHR ''/'' \<in> set cs")
    case True
    with Cons show ?thesis
      by (simp add: lazy_segment_slash after_last_slash_Cons)
  next
    case False
    note no = False
    show ?thesis
    proof (cases "c = CHR ''/''")
      case True
      with no Cons show ?thesis
        by (simp add: lazy_segment_start after_last_slash_slash)
    next
      case False
      with no Cons show ?thesis by simp
    qed
  qed
qed

lemma split_from_nonempty: "split_from sep cur s \<noteq> []"
  by (induction sep cur s rule: split_from.induct) auto

lemma last_split_slash:
  "last (split_from ''/'' cur s) = (if CHR ''/'' \<in> set s then after_last_slash s else cur @ s)"
proof (induction s arbitrary: cur)
  case Nil
  show ?case by simp
next
  case (Cons c cs)
  show ?case
  proof (cases "c = CHR ''/''")
    case True
    then have "split_from ''/'' cur (c # cs) = cur # split_from ''/'' [] cs" by simp
    then have "last (split_from ''/'' cur (c # cs)) = last (split_from ''/'' [] cs)"
      by (simp add: split_from_nonempty)
    with True Cons [of "[]"] show ?thesis
      by (auto simp: after_last_slash_Cons after_last_slash_slash)
  next
    case False
    then have "split_from ''/'' cur (c # cs) = split_from ''/'' (cur @ [c]) cs" by simp
    with False Cons [of "cur @ [c]"] show ?thesis
      by (auto simp: after_last_slash_Cons)
  qed
qed

lemma pop_split_slash: "pop (split s ''/'') = Some (after_last_slash s)"
  using last_split_slash [of "[]" s]
  by (simp add: pop_def split_def split_from_nonempty after_last_slash_none)

text \<open>
  Claim C8, as amended. Inside a git repository: when the trimmed origin URL has a slash
  and a nonempty text after its last slash, \<open>getRepoName\<close> returns that text without one
  trailing \<open>.git\<close> (kept when nothing else would remain). In every other case (no origin
  remote, no value, no slash in the URL, or a URL that ends with a slash) it returns the
  text after the last slash of the trimmed working-tree root, or \<open>unknown\<close> when that text
  is empty.
\<close>

theorem C8_repo_name:
  assumes "checkIsRepo repo"
  shows "(\<forall>remote. remote_get_url_origin repo = Inr (Some remote)
            \<and> CHR ''/'' \<in> set (trim remote) \<and> after_last_slash (trim remote) \<noteq> [] \<longrightarrow>
          getRepoName repo = Inr (strip_dot_git (after_last_slash (trim remote))))
     \<and> (\<forall>root. (isl (remote_get_url_origin repo) \<or> remote_get_url_origin repo = Inr None
              \<or> (\<exists>remote. remote_get_url_origin repo = Inr (Some remote)
                    \<and> (CHR ''/'' \<notin> set (trim remote) \<or> after_last_slash (trim remote) = [])))
            \<and> revparse_show_toplevel repo = Inr root \<longrightarrow>
          getRepoName repo =
            Inr (if after_last_slash (trim root) = [] then ''unknown''
                 else after_last_slash (trim root)))"
proof (intro conjI allI impI)
  fix remote
  assume "remote_get_url_origin repo = Inr (Some remote)
            \<and> CHR ''/'' \<in> set (trim remote) \<and> after_last_slash (trim remote) \<noteq> []"
  moreover from this have "remote \<noteq> []" by (auto simp: trim_def)
  ultimately show "getRepoName repo = Inr (strip_dot_git (after_last_slash (trim remote)))"
    using assms by (simp add: getRepoName_def getGit_def matchRepoName_spec)
next
  fix root
  assume a: "(isl (remote_get_url_origin repo) \<or> remote_get_url_origin repo = Inr None
              \<or> (\<exists>remote. remote_get_url_origin repo = Inr (Some remote)
                    \<and> (CHR ''/'' \<notin> set (trim remote) \<or> after_last_slash (trim remote) = [])))
            \<and> revparse_show_toplevel repo = Inr root"
  then have "(case remote_get_url_origin repo of
                   Inl e \<Rightarrow> None
                 | Inr None \<Rightarrow> None
                 | Inr (Some remote) \<Rightarrow>
                     if remote \<noteq> [] then matchRepoName (trim remote) else None) = None"
    by (auto simp: matchRepoName_spec isl_def)
  with a assms show "getRepoName repo =
            Inr (if after_last_slash (trim root) = [] then ''unknown''
                 else after_last_slash (trim root))"
    by (simp add: getRepoName_def getGit_def pop_split_slash)
qed

lemma repo_examples:
  "trim ''https://github.com/org/myrepo.git\<newline>'' = ''https://github.com/org/myrepo.git''"
  "after_last_slash ''https://github.com/org/myrepo.git'' = ''myrepo.git''"
  "strip_dot_git ''myrepo.git'' = ''myrepo''"
  "trim ''/home/dev/work\<newline>'' = ''/home/dev/work''"
  "after_last_slash ''/home/dev/work'' = ''work''"
  by code_simp+

theorem C8_repo_name_witness:
  "checkIsRepo repo_with_remote
   \<and> getRepoName repo_with_remote = Inr ''myrepo''
   \<and> checkIsRepo repo_without_remote
   \<and> isl (remote_get_url_origin repo_without_remote)
   \<and> getRepoName repo_without_remote = Inr ''work''"
proof -
  have 1: "checkIsRepo repo_with_remote" and 2: "checkIsRepo repo_without_remote"
    by (simp_all add: repo_with_remote_def repo_without_remote_def)
  from C8_repo_name [OF 1] C8_repo_name [OF 2] 1 2 show ?thesis
    by (simp add: repo_with_remote_def repo_without_remote_def repo_examples)
qed

text \<open>
  Claim C8 as stated fails: without an origin remote and with the work tree at the
  file-system root the result is \<open>unknown\<close>, which is no base name of the root; and an
  origin URL that ends with a slash is not used at all.
\<close>

theorem C8_repo_name_counterexample:
  "getRepoName repo_at_root = Inr ''unknown''
   \<and> getRepoName repo_remote_slash = Inr ''work''"
  by code_simp

section \<open>The configuration file\<close>

lemma try_config_eq:
  "try_config env p =
     (case fs env p of
        Contents s \<Rightarrow> map_option (spread DEFAULT_CONFIG) (JSON_parse env s)
      | _ \<Rightarrow> None)"
  by (simp add: try_config_def existsSync_def readFileSync_def
      split: file_state.splits option.splits)

lemma try_config_unusable: "\<not> usable env p \<Longrightarrow> try_config env p = None"
  by (auto simp: try_config_eq usable_def split: file_state.splits)

lemma try_configs_total: "\<exists>config. try_configs env ps = Inr config"
  by (induction ps) (auto split: option.splits)

lemma try_configs_default:
  "\<forall>p\<in>set ps. \<not> usable env p \<Longrightarrow> try_configs env ps = Inr DEFAULT_CONFIG"
  by (induction ps) (auto simp: try_config_unusable)

lemma try_configs_first:
  assumes "\<forall>q\<in>set pre. \<not> usable env q" "fs env p = Contents s" "JSON_parse env s = Some v"
  shows "try_configs env (pre @ p # post) = Inr (spread DEFAULT_CONFIG v)"
proof -
  from assms(2,3) have "try_config env p = Some (spread DEFAULT_CONFIG v)"
    by (simp add: try_config_eq)
  with assms(1) show ?thesis
    by (induction pre) (simp_all add: try_config_unusable)
qed

lemma map_of_set_prop: "map_of (set_prop obj k v) = (map_of obj)(k \<mapsto> v)"
  by (induction obj) auto

lemma map_of_assign_all:
  "map_of (foldl (\<lambda>obj (k, x). set_prop obj k x) obj props) = map_of obj ++ map_of (rev props)"
proof (induction props arbitrary: obj)
  case Nil
  show ?case by simp
next
  case (Cons p props)
  obtain k x where p: "p = (k, x)" by (cases p)
  have "map_of (foldl (\<lambda>obj (k, x). set_prop obj k x) obj (p # props)) =
      map_of (foldl (\<lambda>obj (k, x). set_prop obj k x) (set_prop obj k x) props)"
    by (simp add: p)
  also have "\<dots> = map_of (set_prop obj k x) ++ map_of (rev props)"
    by (rule Cons)
  also have "\<dots> = (map_of obj)(k \<mapsto> x) ++ map_of (rev props)"
    by (simp only: map_of_set_prop)
  also have "\<dots> = map_of obj ++ map_of (rev (p # props))"
    by (rule ext) (auto simp: p map_add_def split: option.splits)
  finally show ?case .
qed

lemma map_of_spread: "map_of (spread obj v) = map_of obj ++ map_of (rev (own_props v))"
  by (simp add: spread_def map_of_assign_all)

text \<open>
  Claim C9. \<open>loadConfig\<close> never throws: it always returns a configuration. When none of
  the searched paths holds a file that can be read and parsed, the result is the default
  configuration. When a searched path holds a file that is read and parsed, and no
  earlier searched path does, the result is the defaults with the parsed value spread
  over them: each key of the parsed value has the parsed value, every other key has its
  default.
\<close>

theorem C9_loadConfig:
  "(\<exists>config. loadConfig env cwd = Inr config)
   \<and> ((\<forall>p\<in>set (searchPaths env cwd). \<not> usable env p) \<longrightarrow>
        loadConfig env cwd = Inr DEFAULT_CONFIG)
   \<and> (\<forall>pre p post s v.
         searchPaths env cwd = pre @ p # post \<and> (\<forall>q\<in>set pre. \<not> usable env q)
         \<and> fs env p = Contents s \<and> JSON_parse env s = Some v \<longrightarrow>
         loadConfig env cwd = Inr (spread DEFAULT_CONFIG v)
         \<and> (\<forall>k. map_of (spread DEFAULT_CONFIG v) k =
                (case map_of (rev (own_props v)) k of
                   Some x \<Rightarrow> Some x
                 | None \<Rightarrow> map_of DEFAULT_CONFIG k)))"
proof (intro conjI allI impI)
  show "\<exists>config. loadConfig env cwd = Inr config"
    unfolding loadConfig_def by (rule try_configs_total)
  show "loadConfig env cwd = Inr DEFAULT_CONFIG"
    if "\<forall>p\<in>set (searchPaths env cwd). \<not> usable env p"
    unfolding loadConfig_def using that by (rule try_configs_default)
next
  fix pre p post s v
  assume a: "searchPaths env cwd = pre @ p # post \<and> (\<forall>q\<in>set pre. \<not> usable env q)
         \<and> fs env p = Contents s \<and> JSON_parse env s = Some v"
  then show "loadConfig env cwd = Inr (spread DEFAULT_CONFIG v)"
    by (simp add: loadConfig_def try_configs_first)
  fix k
  show "map_of (spread DEFAULT_CONFIG v) k =
                (case map_of (rev (own_props v)) k of
                   Some x \<Rightarrow> Some x
                 | None \<Rightarrow> map_of DEFAULT_CONFIG k)"
    by (simp add: map_of_spread map_add_def)
qed

lemma home_env_paths:
  "searchPaths home_env None =
     [''/home/dev/work/.devlogrc'', ''/home/dev/work/.devlogrc.json''] @
     ''/home/dev/.devlogrc'' # [''/home/dev/.devlogrc.json'']"
  by (simp add: searchPaths_def home_env_def)

theorem C9_loadConfig_witness:
  "list_all (\<lambda>p. \<not> usable empty_env p) (searchPaths empty_env None)
   \<and> loadConfig empty_env None = Inr DEFAULT_CONFIG
   \<and> list_all (\<lambda>p. \<not> usable home_env p)
        [''/home/dev/work/.devlogrc'', ''/home/dev/work/.devlogrc.json'']
   \<and> fs home_env ''/home/dev/.devlogrc'' = Contents user_json
   \<and> loadConfig home_env None =
       Inr [(''format'', JStr ''terminal''), (''useCopilot'', JBool False),
            (''author'', JUndefined), (''showFiles'', JBool True),
            (''showStats'', JBool True), (''maxCommits'', JNum 100)]"
proof -
  have e: "list_all (\<lambda>p. \<not> usable empty_env p) (searchPaths empty_env None)"
    by (simp add: usable_def empty_env_def searchPaths_def)
  have h: "list_all (\<lambda>p. \<not> usable home_env p)
        [''/home/dev/work/.devlogrc'', ''/home/dev/work/.devlogrc.json'']"
    by (simp add: usable_def home_env_def user_json_def)
  have f: "fs home_env ''/home/dev/.devlogrc'' = Contents user_json"
    "JSON_parse home_env user_json = Some (JObj [(''useCopilot'', JBool False)])"
    by (simp_all add: home_env_def)
  have s: "spread DEFAULT_CONFIG (JObj [(''useCopilot'', JBool False)]) =
      [(''format'', JStr ''terminal''), (''useCopilot'', JBool False),
            (''author'', JUndefined), (''showFiles'', JBool True),
            (''showStats'', JBool True), (''maxCommits'', JNum 100)]"
    by (simp add: spread_def DEFAULT_CONFIG_def)
  from C9_loadConfig [of empty_env None] e
  have 1: "loadConfig empty_env None = Inr DEFAULT_CONFIG"
    by (simp add: list_all_iff)
  have b: "\<forall>q\<in>set [''/home/dev/work/.devlogrc'', ''/home/dev/work/.devlogrc.json''].
      \<not> usable home_env q"
    using h by (simp only: list_all_iff)
  note c = C9_loadConfig [of home_env None, THEN conjunct2, THEN conjunct2, rule_format,
      of "[''/home/dev/work/.devlogrc'', ''/home/dev/work/.devlogrc.json'']"
         "''/home/dev/.devlogrc''" "[''/home/dev/.devlogrc.json'']" user_json
         "JObj [(''useCopilot'', JBool False)]"]
  have 2: "loadConfig home_env None = Inr (spread DEFAULT_CONFIG (JObj [(''useCopilot'', JBool False)]))"
    by (rule c [THEN conjunct1]) (intro conjI home_env_paths b f)
  from e h f 1 2 s show ?thesis by simp
qed

section \<open>The recap command\<close>

lemma split_from_none:
  assumes "sep \<noteq> []" "\<forall>i\<le>length s. \<not> startsWith (drop i s) sep"
  shows "split_from sep cur s = [cur @ s]"
  using assms(2)
proof (induction s arbitrary: cur)
  case Nil
  show ?case by simp
next
  case (Cons c cs)
  from Cons.prems have "\<not> startsWith (c # cs) sep" by force
  moreover have "\<forall>i\<le>length cs. \<not> startsWith (drop i cs) sep"
  proof (intro allI impI)
    fix i assume "i \<le> length cs"
    with Cons.prems have "\<not> startsWith (drop (Suc i) (c # cs)) sep" by force
    then show "\<not> startsWith (drop i cs) sep" by simp
  qed
  ultimately show ?case using Cons.IH [of "cur @ [c]"] by simp
qed

lemma split_from_first:
  assumes "sep \<noteq> []"
  shows "n \<le> length s \<Longrightarrow> startsWith (drop n s) sep \<Longrightarrow>
     \<forall>i<n. \<not> startsWith (drop i s) sep \<Longrightarrow>
     split_from sep cur s = (cur @ take n s) # split_from sep [] (drop (n + length sep) s)"
proof (induction n arbitrary: s cur)
  case 0
  show ?case
  proof (cases s)
    case Nil
    with 0 assms show ?thesis by (cases sep) auto
  next
    case (Cons c cs)
    from assms have "drop (length sep) (c # cs) = drop (length sep - 1) cs"
      by (cases sep) auto
    with 0 Cons show ?thesis by simp
  qed
next
  case (Suc n)
  then obtain c cs where s: "s = c # cs" by (cases s) auto
  from Suc.prems(3) have no: "\<not> startsWith (c # cs) sep"
    unfolding s by force
  have "\<forall>i<n. \<not> startsWith (drop i cs) sep"
  proof (intro allI impI)
    fix i assume "i < n"
    with Suc.prems(3) have "\<not> startsWith (drop (Suc i) s) sep" by force
    then show "\<not> startsWith (drop i cs) sep" by (simp add: s)
  qed
  with Suc.prems s have "split_from sep (cur @ [c]) cs =
      ((cur @ [c]) @ take n cs) # split_from sep [] (drop (n + length sep) cs)"
    by (intro Suc.IH) auto
  with no show ?case by (simp add: s)
qed

lemma split_one_occurrence:
  assumes sep: "sep \<noteq> []" and occ: "occurrences sep s = [n]"
  shows "split s sep = [take n s, drop (n + length sep) s]"
proof -
  have "i \<in> set (occurrences sep s) \<longleftrightarrow> i \<le> length s \<and> startsWith (drop i s) sep" for i
    unfolding occurrences_def by (simp del: upt_Suc add: less_Suc_eq_le)
  then have only: "i \<le> length s \<and> startsWith (drop i s) sep \<longleftrightarrow> i = n" for i
    by (simp add: occ)
  from only [of n] have n: "n \<le> length s" "startsWith (drop n s) sep" by simp_all
  have before: "\<forall>i<n. \<not> startsWith (drop i s) sep"
  proof (intro allI impI notI)
    fix i assume "i < n" and "startsWith (drop i s) sep"
    with n(1) have "i \<le> length s \<and> startsWith (drop i s) sep" by simp
    with only [of i] \<open>i < n\<close> show False by simp
  qed
  have after: "\<forall>j\<le>length (drop (n + length sep) s).
      \<not> startsWith (drop j (drop (n + length sep) s)) sep"
  proof (intro allI impI notI)
    fix j assume j: "j \<le> length (drop (n + length sep) s)"
      and st: "startsWith (drop j (drop (n + length sep) s)) sep"
    have pos: "0 < length sep" using sep by simp
    show False
    proof (cases "n + length sep \<le> length s")
      case True
      with j have "j + (n + length sep) \<le> length s" by simp
      moreover from st have "startsWith (drop (j + (n + length sep)) s) sep" by simp
      ultimately have "j + (n + length sep) = n" using only [of "j + (n + length sep)"] by simp
      with pos show False by simp
    next
      case False
      then have "drop (n + length sep) s = []" by simp
      with st sep show False by (cases sep) auto
    qed
  qed
  from split_from_first [OF sep n before, of "[]"] split_from_none [OF sep after, of "[]"]
  show ?thesis using sep by (simp add: split_def)
qed

lemma extends_trans: "extends t1 t2 \<Longrightarrow> extends t2 t3 \<Longrightarrow> extends t1 t3"
  unfolding extends_def by (meson prefix_order.order_trans)

lemma extends_append: "PrintError usage_error \<notin> set ys \<Longrightarrow> extends t (t @ ys)"
  by (simp add: extends_def no_usage_error_def)

lemma extends_refl: "extends t t"
  by (simp add: extends_def)

lemma recap_catch_extends: "extends trace (fst (recap_catch trace e))"
  by (simp add: recap_catch_def extends_append)

lemma generateRangeSummary_total:
  "\<exists>s spawned. generateRangeSummary run cs repoName from to [] = (Inr s, spawned)"
  by (simp add: generateRangeSummary_def Let_def askCopilot_eq)

lemma recap_summary_extends:
  "extends trace (snd (recap_summary world options a config cs repoName from to trace))"
proof -
  obtain s spawned where
    g: "generateRangeSummary (cli world) cs repoName from to [] = (Inr s, spawned)"
    using generateRangeSummary_total by blast
  have "\<exists>ys. snd (recap_summary world options a config cs repoName from to trace) = trace @ ys
      \<and> PrintError usage_error \<notin> set ys"
    by (auto simp: recap_summary_def Let_def g)
  then show ?thesis using extends_append by auto
qed

lemma recap_export_extends:
  "extends trace (fst (recap_export world options cs repoName from to aiSummary trace))"
proof -
  have "\<exists>ys. fst (recap_export world options cs repoName from to aiSummary trace) = trace @ ys
      \<and> PrintError usage_error \<notin> set ys"
    by (auto simp: recap_export_def recap_catch_def Let_def split: option.splits)
  then show ?thesis using extends_append by auto
qed

lemma recap_body_extends:
  "extends (trace @ reading_commits from to)
     (fst (recap_body world options a config from to trace))"
proof -
  define t1 where "t1 = trace @ reading_commits from to"
  have body: "recap_body world options a config from to trace =
     (case getCommitsRange world from to of
           Inl e \<Rightarrow> recap_catch t1 e
         | Inr cs \<Rightarrow>
             (case getRepoName (work_tree world) of
                Inl e \<Rightarrow> recap_catch t1 e
              | Inr repoName \<Rightarrow>
                  if length cs = 0
                  then (t1 @ [SpinnerStop, PrintHeader repoName from to,
                          PrintWarning ''No commits found in this range.'', PrintFooter], None)
                  else
                    (case groupCommitsByDate (dates world) cs of
                       Inl e \<Rightarrow>
                         recap_catch (t1 @ [SpinnerStop, PrintHeader repoName from to, PrintStats cs]) e
                     | Inr groups \<Rightarrow>
                         (case recap_summary world options a config cs repoName from to
                                 (t1 @ [SpinnerStop, PrintHeader repoName from to, PrintStats cs,
                                    PrintGroupedCommits groups]) of
                            (Inl e, trace) \<Rightarrow> recap_catch trace e
                          | (Inr aiSummary, trace) \<Rightarrow>
                              recap_export world options cs repoName from to aiSummary trace))))"
    by (simp add: recap_body_def Let_def t1_def reading_commits_def
        split: sum.splits prod.splits)
  have "extends t1 (fst (recap_body world options a config from to trace))"
  proof (cases "getCommitsRange world from to")
    case (Inl e)
    then show ?thesis by (simp add: body recap_catch_extends)
  next
    case (Inr cs)
    note c = this
    show ?thesis
    proof (cases "getRepoName (work_tree world)")
      case (Inl e)
      with c show ?thesis by (simp add: body recap_catch_extends)
    next
      case (Inr repoName)
      note r = this
      show ?thesis
      proof (cases "cs = []")
        case True
        with c r show ?thesis by (simp add: body extends_append)
      next
        case False
        note ne = this
        show ?thesis
        proof (cases "groupCommitsByDate (dates world) cs")
          case (Inl e)
          have "extends t1 (t1 @ [SpinnerStop, PrintHeader repoName from to, PrintStats cs])"
            by (rule extends_append) simp
          from extends_trans [OF this recap_catch_extends] c r ne Inl show ?thesis
            by (simp add: body)
        next
          case (Inr groups)
          note g = this
          define t2 where "t2 = t1 @ [SpinnerStop, PrintHeader repoName from to, PrintStats cs,
                                    PrintGroupedCommits groups]"
          obtain res t3 where rs:
            "recap_summary world options a config cs repoName from to t2 = (res, t3)"
            by (cases "recap_summary world options a config cs repoName from to t2")
          have "extends t1 t2"
            unfolding t2_def by (rule extends_append) simp
          moreover have "extends t2 t3"
            using recap_summary_extends [of t2 world options a config cs repoName "from" "to"]
            by (simp add: rs)
          ultimately have e13: "extends t1 t3" by (rule extends_trans)
          show ?thesis
          proof (cases res)
            case (Inl e)
            from extends_trans [OF e13 recap_catch_extends] c r ne g rs Inl show ?thesis
              by (simp add: body t2_def [symmetric])
          next
            case (Inr aiSummary)
            note ai = this
            from extends_trans [OF e13 recap_export_extends] c r ne g rs ai show ?thesis
              by (simp add: body t2_def [symmetric])
          qed
        qed
      qed
    qed
  qed
  then show ?thesis by (simp add: t1_def)
qed

lemma loadConfig_total: "\<exists>config. loadConfig env cwd = Inr config"
  unfolding loadConfig_def by (rule try_configs_total)

lemma recap_invalid:
  assumes "length (split rangeArg ''..'') \<noteq> 2"
  shows "recap world rangeArg options = (recap_prefix world @ [PrintError usage_error], Some 1)"
proof -
  obtain config where "loadConfig (config_files world) None = Inr config"
    using loadConfig_total by blast
  with assms show ?thesis
    by (simp add: recap_def Let_def isCopilotCliAvailable_eq recap_prefix_def)
qed

lemma recap_valid:
  assumes "split rangeArg ''..'' = [from, to]"
  shows "\<exists>a config. recap world rangeArg options =
     recap_body world options a config from to (recap_prefix world)"
proof -
  obtain config where "loadConfig (config_files world) None = Inr config"
    using loadConfig_total by blast
  with assms have "recap world rangeArg options =
      recap_body world options
        (case cli world probe_invocation of Inl err \<Rightarrow> False
         | Inr out \<Rightarrow> includes_str out ''Copilot CLI'')
        config from to (recap_prefix world)"
    by (simp add: recap_def Let_def isCopilotCliAvailable_eq recap_prefix_def)
  then show ?thesis by blast
qed

lemma recap_proceeds:
  assumes "split rangeArg ''..'' = [from, to]"
  shows "prefix (recap_prefix world @ reading_commits from to) (fst (recap world rangeArg options))
     \<and> no_usage_error (fst (recap world rangeArg options))"
proof -
  from recap_valid [OF assms] obtain a config where
    r: "recap world rangeArg options =
      recap_body world options a config from to (recap_prefix world)"
    by blast
  have "no_usage_error (recap_prefix world @ reading_commits from to)"
    by (simp add: no_usage_error_def recap_prefix_def reading_commits_def)
  moreover have "no_usage_error (recap_prefix world)"
    by (simp add: no_usage_error_def recap_prefix_def)
  ultimately show ?thesis
    using recap_body_extends [of "recap_prefix world" "from" "to" world options a config]
    by (simp add: r extends_def)
qed

text \<open>
  Claim C6. Before the range argument is checked the action has printed the banner, read
  the configuration and probed the AI command: no git query. When the split of the
  argument on \<open>..\<close> does not have exactly two parts, the action prints the usage error
  and ends the process with status 1, and its trace holds no git query. When the
  argument has exactly one occurrence of \<open>..\<close>, at position \<open>n\<close>, the split is the text
  before it and the text after it, and the action goes on: it starts the spinner and the
  two git queries with these two texts as \<open>from\<close> and \<open>to\<close>, and never prints the usage
  error. \<open>abc123..def456\<close> splits into \<open>abc123\<close> and \<open>def456\<close>; \<open>abc123\<close> splits into one
  part.
\<close>

theorem C6_recap_range_validation:
  "(\<forall>q. GitCall q \<notin> set (recap_prefix world))
   \<and> (length (split rangeArg ''..'') \<noteq> 2 \<longrightarrow>
        recap world rangeArg options = (recap_prefix world @ [PrintError usage_error], Some 1)
        \<and> (\<forall>q. GitCall q \<notin> set (fst (recap world rangeArg options))))
   \<and> (occurrences ''..'' rangeArg = [n] \<longrightarrow>
        split rangeArg ''..'' = [take n rangeArg, drop (n + 2) rangeArg]
        \<and> prefix (recap_prefix world @ reading_commits (take n rangeArg) (drop (n + 2) rangeArg))
             (fst (recap world rangeArg options))
        \<and> no_usage_error (fst (recap world rangeArg options)))
   \<and> split ''abc123..def456'' ''..'' = [''abc123'', ''def456'']
   \<and> split ''abc123'' ''..'' = [''abc123'']"
proof (intro conjI impI allI)
  show "GitCall q \<notin> set (recap_prefix world)" for q
    by (simp add: recap_prefix_def)
  assume "length (split rangeArg ''..'') \<noteq> 2"
  then show r: "recap world rangeArg options =
      (recap_prefix world @ [PrintError usage_error], Some 1)"
    by (rule recap_invalid)
  show "GitCall q \<notin> set (fst (recap world rangeArg options))" for q
    by (simp add: r recap_prefix_def)
next
  assume "occurrences ''..'' rangeArg = [n]"
  from split_one_occurrence [OF _ this]
  show s: "split rangeArg ''..'' = [take n rangeArg, drop (n + 2) rangeArg]"
    by simp
  from recap_proceeds [OF s]
  show "prefix (recap_prefix world @ reading_commits (take n rangeArg) (drop (n + 2) rangeArg))
             (fst (recap world rangeArg options))"
    and "no_usage_error (fst (recap world rangeArg options))"
    by simp_all
next
  show "split ''abc123..def456'' ''..'' = [''abc123'', ''def456'']"
    by (simp add: split_def)
  show "split ''abc123'' ''..'' = [''abc123'']"
    by (simp add: split_def)
qed

lemma occurrences_example: "occurrences ''..'' ''abc123..def456'' = [6]"
  by code_simp

theorem C6_recap_range_validation_witness:
  "length (split ''abc123'' ''..'') \<noteq> 2
   \<and> recap sample_world ''abc123'' sample_options =
       (recap_prefix sample_world @ [PrintError usage_error], Some 1)
   \<and> occurrences ''..'' ''abc123..def456'' = [6]
   \<and> prefix (recap_prefix sample_world @ reading_commits ''abc123'' ''def456'')
        (fst (recap sample_world ''abc123..def456'' sample_options))"
proof -
  have l: "length (split ''abc123'' ''..'') \<noteq> 2"
    by (simp add: split_def)
  from C6_recap_range_validation [of sample_world "''abc123''" sample_options] l
    C6_recap_range_validation [of sample_world "''abc123..def456''" sample_options 6]
    occurrences_example
  show ?thesis by simp
qed

lemma occurrences_single:
  assumes "length (occurrences sep s) = 1" "n \<le> length s" "startsWith (drop n s) sep"
  shows "occurrences sep s = [n]"
proof -
  from assms(1) obtain k where k: "occurrences sep s = [k]"
    by (cases "occurrences sep s") auto
  have "n \<in> set (occurrences sep s)"
    unfolding occurrences_def using assms(2,3) by (simp del: upt_Suc add: less_Suc_eq_le)
  with k show ?thesis by simp
qed

lemma startsWith_append: "startsWith (sep @ s) sep"
  by (simp add: startsWith_prefix)

text \<open>
  Claim C10. An argument \<open>..X\<close> or \<open>X..\<close> with exactly one occurrence of \<open>..\<close> splits
  into two parts, one of them empty; the check passes, and the action starts the git
  queries with the empty string as \<open>from\<close> or as \<open>to\<close> and never prints the usage error.
\<close>

theorem C10_recap_empty_endpoint:
  "(length (occurrences ''..'' (''..'' @ x)) = 1 \<longrightarrow>
      split (''..'' @ x) ''..'' = [[], x]
      \<and> prefix (recap_prefix world @ reading_commits [] x)
           (fst (recap world (''..'' @ x) options))
      \<and> no_usage_error (fst (recap world (''..'' @ x) options)))
   \<and> (length (occurrences ''..'' (x @ ''..'')) = 1 \<longrightarrow>
      split (x @ ''..'') ''..'' = [x, []]
      \<and> prefix (recap_prefix world @ reading_commits x [])
           (fst (recap world (x @ ''..'') options))
      \<and> no_usage_error (fst (recap world (x @ ''..'') options)))"
proof (intro conjI impI)
  assume "length (occurrences ''..'' (''..'' @ x)) = 1"
  then have "occurrences ''..'' (''..'' @ x) = [0]"
    by (rule occurrences_single) (simp_all add: startsWith_prefix)
  from split_one_occurrence [OF _ this]
  show s: "split (''..'' @ x) ''..'' = [[], x]" by simp
  from recap_proceeds [OF s]
  show "prefix (recap_prefix world @ reading_commits [] x)
           (fst (recap world (''..'' @ x) options))"
    and "no_usage_error (fst (recap world (''..'' @ x) options))"
    by simp_all
next
  assume "length (occurrences ''..'' (x @ ''..'')) = 1"
  then have "occurrences ''..'' (x @ ''..'') = [length x]"
    by (rule occurrences_single) (simp_all add: startsWith_prefix)
  from split_one_occurrence [OF _ this]
  show s: "split (x @ ''..'') ''..'' = [x, []]" by simp
  from recap_proceeds [OF s]
  show "prefix (recap_prefix world @ reading_commits x [])
           (fst (recap world (x @ ''..'') options))"
    and "no_usage_error (fst (recap world (x @ ''..'') options))"
    by simp_all
qed

lemma occurrences_examples:
  "length (occurrences ''..'' (''..'' @ ''HEAD'')) = 1"
  "length (occurrences ''..'' (''v1.0'' @ ''..'')) = 1"
  by code_simp+

theorem C10_recap_empty_endpoint_witness:
  "length (occurrences ''..'' (''..'' @ ''HEAD'')) = 1
   \<and> split (''..'' @ ''HEAD'') ''..'' = [[], ''HEAD'']
   \<and> prefix (recap_prefix sample_world @ reading_commits [] ''HEAD'')
        (fst (recap sample_world (''..'' @ ''HEAD'') sample_options))
   \<and> no_usage_error (fst (recap sample_world (''..'' @ ''HEAD'') sample_options))
   \<and> length (occurrences ''..'' (''v1.0'' @ ''..'')) = 1
   \<and> split (''v1.0'' @ ''..'') ''..'' = [''v1.0'', []]
   \<and> prefix (recap_prefix sample_world @ reading_commits ''v1.0'' [])
        (fst (recap sample_world (''v1.0'' @ ''..'') sample_options))"
  using C10_recap_empty_endpoint [of "''HEAD''" sample_world sample_options]
    C10_recap_empty_endpoint [of "''v1.0''" sample_world sample_options]
    occurrences_examples
  by blast

end
